theory Spec2Isabelle
  imports Main "HOL-Library.Word" "HOL-Library.Sublist"
begin

section \<open>Trove: reference counting with an autorelease pool (trove.c, trove.h)\<close>

text \<open>
  The C program keeps all of its data in \<^verbatim>\<open>malloc\<close>ed storage and in one global pointer,
  \<^verbatim>\<open>current_autorelease_pool\<close>. The embedding makes that storage explicit: a heap maps
  addresses to typed blocks, every function of \<^verbatim>\<open>trove.c\<close> takes the program state and
  returns the new one, and every way of leaving a function other than by returning
  (\<^verbatim>\<open>exit(1)\<close> after a failed allocation, an access through a pointer that does not
  point to storage of the expected kind) is a value of the type \<open>error\<close>.

  The target is taken to be LP64: \<^verbatim>\<open>int\<close> is 32 bits wide, \<^verbatim>\<open>size_t\<close> is 64 bits wide, a
  pointer occupies 8 bytes. Arithmetic on \<^verbatim>\<open>size_t\<close> wraps around. So does, here, the
  arithmetic on the \<^verbatim>\<open>int\<close> field \<^verbatim>\<open>ref_count\<close>: the C standard leaves signed overflow
  undefined, and two's complement wrap-around is what the increment and the decrement
  of a field in memory compile to.
\<close>

subsection \<open>Data\<close>

type_synonym addr = nat

datatype ptr = NULL | Ptr addr

text \<open>
  A value of the function pointer type \<^verbatim>\<open>void (*)(struct ARCObject *)\<close>: null, the one
  destructor that \<^verbatim>\<open>trove.c\<close> defines, or a destructor defined by client code.
\<close>

datatype fnptr = FNULL | TroveString_dealloc_ptr | ExternFn nat

record ARCObject =
  ref_count :: "32 word"
  dealloc :: fnptr

record AutoreleasePool =
  objects :: ptr
  count :: "64 word"
  capacity :: "64 word"

record TroveString =
  base :: ARCObject
  str :: ptr

text \<open>
  What a block of allocated storage holds: nothing yet (\<open>RawB\<close>), an object of a client
  type of which only the leading \<^verbatim>\<open>ARCObject\<close> header is known (\<open>ObjectB\<close>), a
  \<^verbatim>\<open>TroveString\<close>, an \<^verbatim>\<open>AutoreleasePool\<close>, an array of \<^verbatim>\<open>ARCObject *\<close> whose slots are
  either not yet written (\<open>None\<close>) or hold a pointer, or the characters of a
  NUL-terminated string.
\<close>

datatype block =
    RawB
  | ObjectB ARCObject
  | StringB TroveString
  | PoolB AutoreleasePool
  | ArrayB "ptr option list"
  | CharsB string

text \<open>
  How a run ends when a function does not return: the program wrote a line to
  \<^verbatim>\<open>stderr\<close> and called \<^verbatim>\<open>exit\<close> with a status, or it did something that C leaves
  undefined (here: it used a pointer that does not point to live storage of the kind
  the code expects, or it freed such a pointer).
\<close>

datatype error = Exit int string | UB

text \<open>
  The program state. \<open>brk\<close> counts the allocation requests made so far; the storage handed
  out by a successful request is the block at address \<open>brk\<close>. \<open>alloc_ok\<close> tells for each
  request whether it succeeds, so that every pattern of allocation failures is a state.
  \<open>stderr\<close> collects the diagnostics written with \<^verbatim>\<open>fprintf(stderr, ...)\<close>. \<open>calls\<close>
  records, in order, every call made through a \<^verbatim>\<open>dealloc\<close> field: the function called
  and its argument.
\<close>

record state =
  heap :: "addr \<Rightarrow> block option"
  brk :: addr
  alloc_ok :: "nat \<Rightarrow> bool"
  current_autorelease_pool :: ptr
  stderr :: "string list"
  calls :: "(fnptr \<times> ptr) list"

text \<open>The meaning of the destructors of client code, by their number.\<close>

type_synonym dtors = "nat \<Rightarrow> ptr \<Rightarrow> state \<Rightarrow> error + state"

subsection \<open>Diagnostics\<close>

text \<open>The lines that \<^verbatim>\<open>trove.c\<close> writes to \<^verbatim>\<open>stderr\<close>.\<close>

definition pool_failed_message :: string where
  "pool_failed_message = ''Failed to allocate autorelease pool.'' @ [CHR 0x0A]"

definition pool_objects_failed_message :: string where
  "pool_objects_failed_message = ''Failed to allocate autorelease pool objects.'' @ [CHR 0x0A]"

definition no_pool_message :: string where
  "no_pool_message = ''No autorelease pool in place!'' @ [CHR 0x0A]"

definition realloc_failed_message :: string where
  "realloc_failed_message = ''Failed to reallocate autorelease pool objects.'' @ [CHR 0x0A]"

definition string_failed_message :: string where
  "string_failed_message = ''Failed to allocate TroveString.'' @ [CHR 0x0A]"

definition content_failed_message :: string where
  "content_failed_message = ''Failed to allocate string content.'' @ [CHR 0x0A]"

subsection \<open>The C library\<close>

text \<open>
  \<^verbatim>\<open>malloc\<close>, with the shape that the caller gives to the new storage. The sizes requested
  in \<^verbatim>\<open>trove.c\<close> are never zero.
\<close>

definition malloc :: "block \<Rightarrow> state \<Rightarrow> ptr \<times> state" where
  "malloc b s =
     (if alloc_ok s (brk s)
      then (Ptr (brk s), s\<lparr>heap := (heap s)(brk s \<mapsto> b), brk := Suc (brk s)\<rparr>)
      else (NULL, s\<lparr>brk := Suc (brk s)\<rparr>))"

definition free :: "ptr \<Rightarrow> state \<Rightarrow> error + state" where
  "free q s =
     (case q of
        NULL \<Rightarrow> Inr s
      | Ptr a \<Rightarrow> if heap s a = None then Inl UB else Inr (s\<lparr>heap := (heap s)(a := None)\<rparr>))"

text \<open>
  \<^verbatim>\<open>realloc\<close> of an array of pointers to \<open>nbytes\<close> bytes. The new array has
  \<open>nbytes div 8\<close> slots and keeps the old contents as far as they fit. A request for
  zero bytes frees the array and returns a null pointer (as glibc does); with a null
  pointer for the old array, \<^verbatim>\<open>realloc\<close> is \<^verbatim>\<open>malloc\<close>.
\<close>

definition array_slots :: "64 word \<Rightarrow> nat" where
  "array_slots nbytes = unat nbytes div 8"

definition resize :: "nat \<Rightarrow> ptr option list \<Rightarrow> ptr option list" where
  "resize n xs = take n xs @ replicate (n - length xs) None"

definition realloc :: "ptr \<Rightarrow> 64 word \<Rightarrow> state \<Rightarrow> error + (ptr \<times> state)" where
  "realloc q nbytes s =
     (case q of
        NULL \<Rightarrow> Inr (malloc (ArrayB (replicate (array_slots nbytes) None)) s)
      | Ptr a \<Rightarrow>
          (case heap s a of
             Some (ArrayB xs) \<Rightarrow>
               if nbytes = 0
               then Inr (NULL, s\<lparr>heap := (heap s)(a := None)\<rparr>)
               else if alloc_ok s (brk s)
               then Inr (Ptr (brk s),
                         s\<lparr>heap := ((heap s)(a := None))(brk s \<mapsto> ArrayB (resize (array_slots nbytes) xs)),
                           brk := Suc (brk s)\<rparr>)
               else Inr (NULL, s\<lparr>brk := Suc (brk s)\<rparr>)
           | _ \<Rightarrow> Inl UB))"

text \<open>\<^verbatim>\<open>strdup\<close> copies the characters before the first NUL into new storage.\<close>

definition strdup :: "string \<Rightarrow> state \<Rightarrow> ptr \<times> state" where
  "strdup cs s = malloc (CharsB (takeWhile (\<lambda>c. c \<noteq> CHR 0x00) cs)) s"

definition fprintf_stderr :: "string \<Rightarrow> state \<Rightarrow> state" where
  "fprintf_stderr msg s = s\<lparr>stderr := stderr s @ [msg]\<rparr>"

subsection \<open>The header of an object\<close>

fun header :: "block \<Rightarrow> ARCObject option" where
  "header (ObjectB h) = Some h"
| "header (StringB t) = Some (base t)"
| "header _ = None"

fun set_header :: "ARCObject \<Rightarrow> block \<Rightarrow> block" where
  "set_header h (ObjectB _) = ObjectB h"
| "set_header h (StringB t) = StringB (t\<lparr>base := h\<rparr>)"
| "set_header h b = b"

definition header_at :: "state \<Rightarrow> addr \<Rightarrow> ARCObject option" where
  "header_at s a = (case heap s a of None \<Rightarrow> None | Some b \<Rightarrow> header b)"

definition store_header :: "addr \<Rightarrow> ARCObject \<Rightarrow> state \<Rightarrow> state" where
  "store_header a h s =
     (case heap s a of None \<Rightarrow> s | Some b \<Rightarrow> s\<lparr>heap := (heap s)(a \<mapsto> set_header h b)\<rparr>)"

subsection \<open>TroveString\<close>

text \<open>
  The argument of \<^verbatim>\<open>TroveString_create\<close> is \<^verbatim>\<open>NULL\<close> (\<open>None\<close>) or points to a NUL-terminated
  string (\<open>Some cs\<close>, with the characters found there). The header is filled in before
  the characters are copied; when the copy cannot be allocated the program exits, so
  the block is given its contents in one step, after both allocations.
\<close>

definition TroveString_create :: "string option \<Rightarrow> state \<Rightarrow> error + (ptr \<times> state)" where
  "TroveString_create init s =
     (case malloc RawB s of
        (NULL, s1) \<Rightarrow> Inl (Exit 1 string_failed_message)
      | (Ptr p, s1) \<Rightarrow>
          (case (case init of Some cs \<Rightarrow> strdup cs s1 | None \<Rightarrow> strdup '''' s1) of
             (NULL, s2) \<Rightarrow> Inl (Exit 1 content_failed_message)
           | (Ptr q, s2) \<Rightarrow>
               Inr (Ptr p,
                    s2\<lparr>heap := (heap s2)(p \<mapsto> StringB
                          \<lparr>base = \<lparr>ref_count = 1, dealloc = TroveString_dealloc_ptr\<rparr>,
                           str = Ptr q\<rparr>)\<rparr>)))"

definition TroveString_dealloc :: "ptr \<Rightarrow> state \<Rightarrow> error + state" where
  "TroveString_dealloc obj s =
     (case obj of
        NULL \<Rightarrow> Inl UB
      | Ptr a \<Rightarrow>
          (case heap s a of
             Some (StringB t) \<Rightarrow>
               (case (if str t \<noteq> NULL then free (str t) s else Inr s) of
                  Inl e \<Rightarrow> Inl e
                | Inr s1 \<Rightarrow> free (Ptr a) s1)
           | _ \<Rightarrow> Inl UB))"

subsection \<open>Reference counting\<close>

text \<open>The call \<^verbatim>\<open>obj->dealloc(obj)\<close>: it is recorded, then the function called runs.\<close>

definition call_dealloc :: "dtors \<Rightarrow> fnptr \<Rightarrow> ptr \<Rightarrow> state \<Rightarrow> error + state" where
  "call_dealloc X f obj s =
     (let s1 = s\<lparr>calls := calls s @ [(f, obj)]\<rparr> in
      case f of
        FNULL \<Rightarrow> Inl UB
      | TroveString_dealloc_ptr \<Rightarrow> TroveString_dealloc obj s1
      | ExternFn n \<Rightarrow> X n obj s1)"

definition arc_retain :: "ptr \<Rightarrow> state \<Rightarrow> error + state" where
  "arc_retain obj s =
     (case obj of
        NULL \<Rightarrow> Inr s
      | Ptr a \<Rightarrow>
          (case header_at s a of
             None \<Rightarrow> Inl UB
           | Some h \<Rightarrow> Inr (store_header a (h\<lparr>ref_count := ref_count h + 1\<rparr>) s)))"

definition arc_release :: "dtors \<Rightarrow> ptr \<Rightarrow> state \<Rightarrow> error + state" where
  "arc_release X obj s =
     (case obj of
        NULL \<Rightarrow> Inr s
      | Ptr a \<Rightarrow>
          (case header_at s a of
             None \<Rightarrow> Inl UB
           | Some h \<Rightarrow>
               (let h1 = h\<lparr>ref_count := ref_count h - 1\<rparr>;
                    s1 = store_header a h1 s
                in if sint (ref_count h1) \<le> 0
                   then (if dealloc h1 \<noteq> FNULL then call_dealloc X (dealloc h1) obj s1
                         else Inr s1)
                   else Inr s1)))"

subsection \<open>The autorelease pool\<close>

text \<open>
  \<^verbatim>\<open>autorelease_pool_push\<close> allocates the pool, then the array of 16 pointers; the pool
  gets its three fields once both allocations have succeeded (when the second fails,
  the program frees the pool and exits).
\<close>

definition autorelease_pool_push :: "state \<Rightarrow> error + state" where
  "autorelease_pool_push s =
     (case malloc RawB s of
        (NULL, s1) \<Rightarrow> Inl (Exit 1 pool_failed_message)
      | (Ptr p, s1) \<Rightarrow>
          (let cap = (16 :: 64 word) in
           case malloc (ArrayB (replicate (array_slots (cap * 8)) None)) s1 of
             (NULL, s2) \<Rightarrow>
               Inl (Exit 1 pool_objects_failed_message)
           | (Ptr a, s2) \<Rightarrow>
               Inr (s2\<lparr>heap := (heap s2)(p \<mapsto> PoolB \<lparr>objects = Ptr a, count = 0, capacity = cap\<rparr>),
                       current_autorelease_pool := Ptr p\<rparr>)))"

text \<open>
  The loop of \<^verbatim>\<open>autorelease_pool_pop\<close>, from index \<open>i\<close> on. As in the C code, the bound
  \<^verbatim>\<open>pool->count\<close> and the array \<^verbatim>\<open>pool->objects\<close> are read from the heap in every round.
\<close>

function pop_loop :: "dtors \<Rightarrow> addr \<Rightarrow> 64 word \<Rightarrow> state \<Rightarrow> error + state" where
  "pop_loop X p i s =
     (case heap s p of
        Some (PoolB pool) \<Rightarrow>
          if i < count pool
          then (case objects pool of
                  NULL \<Rightarrow> Inl UB
                | Ptr a \<Rightarrow>
                    (case heap s a of
                       Some (ArrayB xs) \<Rightarrow>
                         if unat i < length xs
                         then (case xs ! unat i of
                                 None \<Rightarrow> Inl UB
                               | Some obj \<Rightarrow>
                                   (case arc_release X obj s of
                                      Inl e \<Rightarrow> Inl e
                                    | Inr s1 \<Rightarrow> pop_loop X p (i + 1) s1))
                         else Inl UB
                     | _ \<Rightarrow> Inl UB))
          else Inr s
      | _ \<Rightarrow> Inl UB)"
  by pat_completeness auto

lemma unat_succ_below: "(i :: 64 word) < c \<Longrightarrow> unat (i + 1) = Suc (unat i)"
proof -
  assume "i < c"
  then have "unat i < unat c"
    by (simp add: word_less_nat_alt)
  moreover have "unat c < 2 ^ 64"
    using unsigned_less [of c] by simp
  ultimately have "unat i + unat (1 :: 64 word) < 2 ^ LENGTH(64)"
    by simp
  then have "unat (i + 1) = unat i + unat (1 :: 64 word)"
    by (simp only: unat_add_lem)
  then show ?thesis
    by simp
qed

termination pop_loop
proof (relation "measure (\<lambda>(X, p, i, s). 2 ^ 64 - unat i)")
  show "wf (measure (\<lambda>(X :: dtors, p :: addr, i :: 64 word, s :: state). 2 ^ 64 - unat i))"
    by simp
next
  fix X :: dtors and p :: addr and i :: "64 word" and s s1 :: state and pool
  assume "i < count pool"
  then have "unat (i + 1) = Suc (unat i)"
    by (rule unat_succ_below)
  moreover have "unat (i + 1) < 2 ^ 64"
    using unsigned_less [of "i + 1"] by simp
  ultimately show "((X, p, i + 1, s1), (X, p, i, s)) \<in> measure (\<lambda>(X, p, i, s). 2 ^ 64 - unat i)"
    by simp
qed

declare pop_loop.simps [simp del]

definition autorelease_pool_pop :: "dtors \<Rightarrow> state \<Rightarrow> error + state" where
  "autorelease_pool_pop X s =
     (case current_autorelease_pool s of
        NULL \<Rightarrow> Inr s
      | Ptr p \<Rightarrow>
          (case pop_loop X p 0 s of
             Inl e \<Rightarrow> Inl e
           | Inr s1 \<Rightarrow>
               (case heap s1 p of
                  Some (PoolB pool) \<Rightarrow>
                    (case free (objects pool) s1 of
                       Inl e \<Rightarrow> Inl e
                     | Inr s2 \<Rightarrow>
                         (case free (Ptr p) s2 of
                            Inl e \<Rightarrow> Inl e
                          | Inr s3 \<Rightarrow> Inr (s3\<lparr>current_autorelease_pool := NULL\<rparr>)))
                | _ \<Rightarrow> Inl UB)))"

text \<open>
  \<^verbatim>\<open>autorelease_add\<close>: without a current pool, a line on \<^verbatim>\<open>stderr\<close> and nothing else. With
  one, the array is first enlarged to twice the capacity when \<^verbatim>\<open>count >= capacity\<close>; then
  the pointer is stored in slot \<^verbatim>\<open>count\<close>, which must be a slot of the array, and
  \<^verbatim>\<open>count\<close> is incremented.
\<close>

definition autorelease_add :: "ptr \<Rightarrow> state \<Rightarrow> error + state" where
  "autorelease_add obj s =
     (case current_autorelease_pool s of
        NULL \<Rightarrow> Inr (fprintf_stderr no_pool_message s)
      | Ptr p \<Rightarrow>
          (case heap s p of
             Some (PoolB pool) \<Rightarrow>
               (case (if capacity pool \<le> count pool
                      then (let cap = capacity pool * 2 in
                            case realloc (objects pool) (cap * 8) s of
                              Inl e \<Rightarrow> Inl e
                            | Inr (NULL, s1) \<Rightarrow>
                                Inl (Exit 1 realloc_failed_message)
                            | Inr (Ptr a, s1) \<Rightarrow>
                                Inr (pool\<lparr>capacity := cap, objects := Ptr a\<rparr>, s1))
                      else Inr (pool, s)) of
                  Inl e \<Rightarrow> Inl e
                | Inr (pool1, s1) \<Rightarrow>
                    (case objects pool1 of
                       NULL \<Rightarrow> Inl UB
                     | Ptr a \<Rightarrow>
                         (case heap s1 a of
                            Some (ArrayB xs) \<Rightarrow>
                              if unat (count pool1) < length xs
                              then Inr (s1\<lparr>heap := (heap s1)
                                          (a \<mapsto> ArrayB (xs[unat (count pool1) := Some obj]),
                                           p \<mapsto> PoolB (pool1\<lparr>count := count pool1 + 1\<rparr>))\<rparr>)
                              else Inl UB
                          | _ \<Rightarrow> Inl UB)))
           | _ \<Rightarrow> Inl UB))"

definition arc_autorelease :: "ptr \<Rightarrow> state \<Rightarrow> error + (ptr \<times> state)" where
  "arc_autorelease obj s =
     (case autorelease_add obj s of Inl e \<Rightarrow> Inl e | Inr s1 \<Rightarrow> Inr (obj, s1))"

subsection \<open>Clients\<close>

text \<open>
  A client that calls the same function \<open>n\<close> times in a row, as in
  \<^verbatim>\<open>for (k = 0; k < n; k++) arc_release(o);\<close>, stopping at the first call that does not
  return.
\<close>

fun repeat_call :: "nat \<Rightarrow> (state \<Rightarrow> error + state) \<Rightarrow> state \<Rightarrow> error + state" where
  "repeat_call 0 f s = Inr s"
| "repeat_call (Suc n) f s = (case f s of Inl e \<Rightarrow> Inl e | Inr s1 \<Rightarrow> repeat_call n f s1)"

text \<open>\<open>n\<close> calls of \<^verbatim>\<open>arc_retain(obj)\<close> followed by \<open>m\<close> calls of \<^verbatim>\<open>arc_release(obj)\<close>.\<close>

definition retains_then_releases ::
    "dtors \<Rightarrow> ptr \<Rightarrow> nat \<Rightarrow> nat \<Rightarrow> state \<Rightarrow> error + state" where
  "retains_then_releases X obj n m s =
     (case repeat_call n (arc_retain obj) s of
        Inl e \<Rightarrow> Inl e
      | Inr s1 \<Rightarrow> repeat_call m (arc_release X obj) s1)"

text \<open>
  A client that registers the objects of a list, first to last, with
  \<^verbatim>\<open>arc_autorelease\<close>, stopping at the first call that does not return.
\<close>

fun autorelease_all :: "ptr list \<Rightarrow> state \<Rightarrow> error + state" where
  "autorelease_all [] s = Inr s"
| "autorelease_all (obj # objs) s =
     (case arc_autorelease obj s of
        Inl e \<Rightarrow> Inl e
      | Inr (r, s1) \<Rightarrow> autorelease_all objs s1)"

text \<open>
  The macro \<^verbatim>\<open>String(text)\<close> of \<^verbatim>\<open>macros.h\<close>:
  \<^verbatim>\<open>arc_autorelease(TroveString_create(text))\<close>.
\<close>

definition String_macro :: "string option \<Rightarrow> state \<Rightarrow> error + (ptr \<times> state)" where
  "String_macro text s =
     (case TroveString_create text s of
        Inl e \<Rightarrow> Inl e
      | Inr (obj, s1) \<Rightarrow> arc_autorelease obj s1)"

text \<open>
  A client that pushes a pool and creates the strings \<^verbatim>\<open>"A"\<close>, \<^verbatim>\<open>"B"\<close> and \<^verbatim>\<open>"C"\<close> in it
  with \<^verbatim>\<open>String\<close>.
\<close>

definition three_strings :: "state \<Rightarrow> error + state" where
  "three_strings s =
     (case autorelease_pool_push s of
        Inl e \<Rightarrow> Inl e
      | Inr s1 \<Rightarrow>
          (case String_macro (Some ''A'') s1 of
             Inl e \<Rightarrow> Inl e
           | Inr (a, s2) \<Rightarrow>
               (case String_macro (Some ''B'') s2 of
                  Inl e \<Rightarrow> Inl e
                | Inr (b, s3) \<Rightarrow>
                    (case String_macro (Some ''C'') s3 of
                       Inl e \<Rightarrow> Inl e
                     | Inr (c, s4) \<Rightarrow> Inr s4))))"

text \<open>A destructor of client code that returns without touching the state.\<close>

definition idle_dtors :: dtors where
  "idle_dtors n obj s = Inr s"

text \<open>
  A destructor of client code with an effect that can be observed: it writes a line to
  \<^verbatim>\<open>stderr\<close> and frees its object.
\<close>

definition destroyed_message :: string where
  "destroyed_message = ''destroyed'' @ [CHR 0x0A]"

definition logging_dtors :: dtors where
  "logging_dtors n obj s = free obj (fprintf_stderr destroyed_message s)"

text \<open>
  A destructor of client code that works in a pool of its own, as a \<^verbatim>\<open>TROVE\<close> block of
  \<^verbatim>\<open>macros.h\<close> does: it pushes a pool, pops it, and frees its object.
\<close>

definition scoped_dtors :: dtors where
  "scoped_dtors n obj s =
     (case autorelease_pool_push s of
        Inl e \<Rightarrow> Inl e
      | Inr s1 \<Rightarrow>
          (case autorelease_pool_pop idle_dtors s1 of
             Inl e \<Rightarrow> Inl e
           | Inr s2 \<Rightarrow> free obj s2))"

subsection \<open>Reading the state\<close>

text \<open>
  The current pool, when \<^verbatim>\<open>current_autorelease_pool\<close> points to a pool whose \<^verbatim>\<open>objects\<close>
  field points to an array: the address of the pool, the pool, the address of the array
  and the slots of the array.
\<close>

definition current_pool :: "state \<Rightarrow> (addr \<times> AutoreleasePool \<times> addr \<times> ptr option list) option" where
  "current_pool s =
     (case current_autorelease_pool s of
        NULL \<Rightarrow> None
      | Ptr p \<Rightarrow>
          (case heap s p of
             Some (PoolB pool) \<Rightarrow>
               (case objects pool of
                  NULL \<Rightarrow> None
                | Ptr a \<Rightarrow>
                    (case heap s a of
                       Some (ArrayB xs) \<Rightarrow> Some (p, pool, a, xs)
                     | _ \<Rightarrow> None))
           | _ \<Rightarrow> None))"

text \<open>
  The objects registered in the current pool, in the order of registration: the first
  \<^verbatim>\<open>count\<close> slots of its array, all of which must have been written.
\<close>

definition registered :: "state \<Rightarrow> ptr list option" where
  "registered s =
     (case current_pool s of
        None \<Rightarrow> None
      | Some (p, pool, a, xs) \<Rightarrow>
          (let n = unat (count pool)
           in if n \<le> length xs \<and> None \<notin> set (take n xs)
              then Some (map the (take n xs)) else None))"

text \<open>The storage of the current pool, and the heap without it.\<close>

definition pool_storage :: "state \<Rightarrow> addr set" where
  "pool_storage s = (case current_pool s of None \<Rightarrow> {} | Some (p, pool, a, xs) \<Rightarrow> {p, a})"

definition other_storage :: "state \<Rightarrow> addr \<Rightarrow> block option" where
  "other_storage s = (\<lambda>b. if b \<in> pool_storage s then None else heap s b)"

text \<open>The allocator has handed out no address from \<open>brk\<close> on.\<close>

definition heap_wf :: "state \<Rightarrow> bool" where
  "heap_wf s = (\<forall>a. brk s \<le> a \<longrightarrow> heap s a = None)"

text \<open>
  The current pool is the one at address \<open>p\<close>, its capacity is 16 doubled \<open>j\<close> times, its
  array has that many slots, and the objects registered in it are \<open>objs\<close>.
\<close>

definition pool_state :: "state \<Rightarrow> addr \<Rightarrow> ptr list \<Rightarrow> nat \<Rightarrow> bool" where
  "pool_state s p objs j =
     (case current_pool s of
        None \<Rightarrow> False
      | Some (p', pool, a, xs) \<Rightarrow>
          p' = p \<and> p < brk s \<and> a < brk s
        \<and> unat (capacity pool) = 16 * 2 ^ j \<and> length xs = 16 * 2 ^ j
        \<and> unat (count pool) = length objs \<and> length objs \<le> 16 * 2 ^ j
        \<and> take (length objs) xs = map Some objs)"

text \<open>The header that a pointer points to, and the destructor in it.\<close>

definition header_of :: "state \<Rightarrow> ptr \<Rightarrow> ARCObject option" where
  "header_of s obj = (case obj of NULL \<Rightarrow> None | Ptr a \<Rightarrow> header_at s a)"

definition destructor_of :: "state \<Rightarrow> ptr \<Rightarrow> fnptr" where
  "destructor_of s obj = (case header_of s obj of None \<Rightarrow> FNULL | Some h \<Rightarrow> dealloc h)"

text \<open>The pointer points to an object with one owner and a destructor.\<close>

definition last_reference :: "state \<Rightarrow> ptr \<Rightarrow> bool" where
  "last_reference s obj =
     (case header_of s obj of None \<Rightarrow> False | Some h \<Rightarrow> ref_count h = 1 \<and> dealloc h \<noteq> FNULL)"

subsection \<open>Releasing a list of objects\<close>

text \<open>
  Releasing the objects of a list one after the other, first to last, each once; the
  first release that does not return ends the run.
\<close>

fun release_all :: "dtors \<Rightarrow> ptr list \<Rightarrow> state \<Rightarrow> error + state" where
  "release_all X [] s = Inr s"
| "release_all X (obj # objs) s =
     (case arc_release X obj s of
        Inl e \<Rightarrow> Inl e
      | Inr s1 \<Rightarrow> release_all X objs s1)"

subsection \<open>Example states\<close>

text \<open>
  The state in which \<^verbatim>\<open>main\<close> starts: nothing is allocated, the global
  \<^verbatim>\<open>current_autorelease_pool\<close> is \<^verbatim>\<open>NULL\<close> (its initialiser in \<^verbatim>\<open>trove.c\<close>), and, for the
  examples below, every allocation succeeds.
\<close>

definition program_start :: state where
  "program_start =
     \<lparr>heap = (\<lambda>a. None), brk = 0, alloc_ok = (\<lambda>n. True),
      current_autorelease_pool = NULL, stderr = [], calls = []\<rparr>"

text \<open>The state after \<^verbatim>\<open>TroveString_create("abc")\<close> at program start.\<close>

definition abc_state :: state where
  "abc_state =
     \<lparr>heap = ((\<lambda>a. None)
         (0 \<mapsto> StringB \<lparr>base = \<lparr>ref_count = 1, dealloc = TroveString_dealloc_ptr\<rparr>, str = Ptr 1\<rparr>))
         (1 \<mapsto> CharsB ''abc''),
      brk = 2, alloc_ok = (\<lambda>n. True),
      current_autorelease_pool = NULL, stderr = [], calls = []\<rparr>"

text \<open>
  The state after \<^verbatim>\<open>TroveString_create("abc")\<close> and then \<^verbatim>\<open>autorelease_pool_push()\<close> at
  program start.
\<close>

definition abc_pool_state :: state where
  "abc_pool_state =
     \<lparr>heap = ((((\<lambda>a. None)
         (0 \<mapsto> StringB \<lparr>base = \<lparr>ref_count = 1, dealloc = TroveString_dealloc_ptr\<rparr>, str = Ptr 1\<rparr>))
         (1 \<mapsto> CharsB ''abc''))
         (2 \<mapsto> PoolB \<lparr>objects = Ptr 3, count = 0, capacity = 16\<rparr>))
         (3 \<mapsto> ArrayB (replicate 16 None)),
      brk = 4, alloc_ok = (\<lambda>n. True),
      current_autorelease_pool = Ptr 2, stderr = [], calls = []\<rparr>"

text \<open>
  The state \<open>abc_pool_state\<close> after \<^verbatim>\<open>arc_autorelease\<close> of the string, that state after a
  second \<^verbatim>\<open>autorelease_pool_push()\<close>, and \<open>abc_pool_state\<close> after \<^verbatim>\<open>arc_autorelease(NULL)\<close>.
\<close>

definition abc_registered_state :: state where
  "abc_registered_state =
     abc_pool_state\<lparr>heap := (heap abc_pool_state)
        (3 \<mapsto> ArrayB ((replicate 16 None)[0 := Some (Ptr 0)]),
         2 \<mapsto> PoolB \<lparr>objects = Ptr 3, count = 1, capacity = 16\<rparr>)\<rparr>"

definition nested_state :: state where
  "nested_state =
     abc_registered_state\<lparr>heap := (heap abc_registered_state)
        (5 \<mapsto> ArrayB (replicate 16 None),
         4 \<mapsto> PoolB \<lparr>objects = Ptr 5, count = 0, capacity = 16\<rparr>),
       brk := 6, current_autorelease_pool := Ptr 4\<rparr>"

definition null_registered_state :: state where
  "null_registered_state =
     abc_pool_state\<lparr>heap := (heap abc_pool_state)
        (3 \<mapsto> ArrayB ((replicate 16 None)[0 := Some NULL]),
         2 \<mapsto> PoolB \<lparr>objects = Ptr 3, count = 1, capacity = 16\<rparr>)\<rparr>"

text \<open>
  The state after \<open>three_strings\<close> at program start: the strings \<^verbatim>\<open>"A"\<close>, \<^verbatim>\<open>"B"\<close> and
  \<^verbatim>\<open>"C"\<close> have been created and registered, in this order, in the current pool.
\<close>

definition three_strings_state :: state where
  "three_strings_state =
     \<lparr>heap = ((((((((\<lambda>a. None)
         (0 \<mapsto> PoolB \<lparr>objects = Ptr 1, count = 3, capacity = 16\<rparr>))
         (1 \<mapsto> ArrayB ([Some (Ptr 2), Some (Ptr 4), Some (Ptr 6)] @ replicate 13 None)))
         (2 \<mapsto> StringB \<lparr>base = \<lparr>ref_count = 1, dealloc = TroveString_dealloc_ptr\<rparr>, str = Ptr 3\<rparr>))
         (3 \<mapsto> CharsB ''A''))
         (4 \<mapsto> StringB \<lparr>base = \<lparr>ref_count = 1, dealloc = TroveString_dealloc_ptr\<rparr>, str = Ptr 5\<rparr>))
         (5 \<mapsto> CharsB ''B''))
         (6 \<mapsto> StringB \<lparr>base = \<lparr>ref_count = 1, dealloc = TroveString_dealloc_ptr\<rparr>, str = Ptr 7\<rparr>))
         (7 \<mapsto> CharsB ''C''),
      brk = 8, alloc_ok = (\<lambda>n. True),
      current_autorelease_pool = Ptr 0, stderr = [], calls = []\<rparr>"

text \<open>
  A state with one object of a client type, at address 0: it has two owners, and its
  destructor is a function of client code.
\<close>

definition client_object_state :: state where
  "client_object_state =
     \<lparr>heap = (\<lambda>a. None)(0 \<mapsto> ObjectB \<lparr>ref_count = 2, dealloc = ExternFn 0\<rparr>),
      brk = 1, alloc_ok = (\<lambda>n. True),
      current_autorelease_pool = NULL, stderr = [], calls = []\<rparr>"

text \<open>
  A state with two objects of a client type, at the addresses 2 and 3, each with one
  owner and a destructor of client code, registered in this order in the current pool.
\<close>

definition two_objects_state :: state where
  "two_objects_state =
     \<lparr>heap = ((((\<lambda>a. None)
         (0 \<mapsto> PoolB \<lparr>objects = Ptr 1, count = 2, capacity = 16\<rparr>))
         (1 \<mapsto> ArrayB ([Some (Ptr 2), Some (Ptr 3)] @ replicate 14 None)))
         (2 \<mapsto> ObjectB \<lparr>ref_count = 1, dealloc = ExternFn 0\<rparr>))
         (3 \<mapsto> ObjectB \<lparr>ref_count = 1, dealloc = ExternFn 0\<rparr>),
      brk = 4, alloc_ok = (\<lambda>n. True),
      current_autorelease_pool = Ptr 0, stderr = [], calls = []\<rparr>"

text \<open>Seventeen pointers, one more than a new pool has room for.\<close>

definition seventeen :: "ptr list" where
  "seventeen = [Ptr 10, Ptr 11, Ptr 12, Ptr 13, Ptr 14, Ptr 15, Ptr 16, Ptr 17, Ptr 18, Ptr 19,
                Ptr 20, Ptr 21, Ptr 22, Ptr 23, Ptr 24, Ptr 25, Ptr 26]"

section \<open>Properties\<close>

subsection \<open>Example states\<close>

lemma create_abc: "TroveString_create (Some ''abc'') program_start = Inr (Ptr 0, abc_state)"
  by (simp add: TroveString_create_def strdup_def malloc_def program_start_def abc_state_def
      fun_upd_twist)

lemma first_slots:
  "(replicate 16 x)[0 := a, Suc 0 := b, 2 := c] = [a, b, c] @ replicate 13 x"
proof -
  have "replicate 16 x = [x, x, x] @ replicate 13 x"
    by (simp add: replicate_add [of 3 13 x, simplified] numeral_3_eq_3)
  then show ?thesis
    by (simp add: numeral_2_eq_2)
qed

lemma three_strings_run: "three_strings program_start = Inr three_strings_state"
  apply (simp add: three_strings_def String_macro_def autorelease_pool_push_def
      TroveString_create_def strdup_def malloc_def arc_autorelease_def autorelease_add_def
      array_slots_def program_start_def three_strings_state_def first_slots
      word_le_nat_alt)
  apply (rule ext)
  apply (simp add: eval_nat_numeral)
  done

subsection \<open>Registration without a pool\<close>

text \<open>
  C6. When \<^verbatim>\<open>current_autorelease_pool\<close> is \<^verbatim>\<open>NULL\<close>, \<^verbatim>\<open>autorelease_add\<close> and
  \<^verbatim>\<open>arc_autorelease\<close> return normally. The only change to the state is the line
  written to \<^verbatim>\<open>stderr\<close>: the heap is the same (so the object is stored in no array and
  every reference count is what it was), and the current pool is still \<^verbatim>\<open>NULL\<close>.
\<close>

theorem autorelease_without_pool:
  assumes "current_autorelease_pool s = NULL"
  shows "autorelease_add obj s = Inr (s\<lparr>stderr := stderr s @ [no_pool_message]\<rparr>)
       \<and> arc_autorelease obj s = Inr (obj, s\<lparr>stderr := stderr s @ [no_pool_message]\<rparr>)
       \<and> heap (s\<lparr>stderr := stderr s @ [no_pool_message]\<rparr>) = heap s
       \<and> current_autorelease_pool (s\<lparr>stderr := stderr s @ [no_pool_message]\<rparr>) = NULL
       \<and> (\<forall>a. header_at (s\<lparr>stderr := stderr s @ [no_pool_message]\<rparr>) a = header_at s a)"
  using assms
  by (simp add: autorelease_add_def arc_autorelease_def fprintf_stderr_def no_pool_message_def
      header_at_def)

theorem autorelease_without_pool_witness:
  "current_autorelease_pool abc_state = NULL
   \<and> arc_autorelease (Ptr 0) abc_state
       = Inr (Ptr 0, abc_state\<lparr>stderr := [''No autorelease pool in place!'' @ [CHR 0x0A]]\<rparr>)
   \<and> header_at (abc_state\<lparr>stderr := [''No autorelease pool in place!'' @ [CHR 0x0A]]\<rparr>) 0
       = Some \<lparr>ref_count = 1, dealloc = TroveString_dealloc_ptr\<rparr>"
proof -
  have no_pool: "current_autorelease_pool abc_state = NULL"
    by (simp add: abc_state_def)
  have hdr: "header_at abc_state 0 = Some \<lparr>ref_count = 1, dealloc = TroveString_dealloc_ptr\<rparr>"
    by (simp add: abc_state_def header_at_def)
  have log: "stderr abc_state = []"
    by (simp add: abc_state_def)
  show ?thesis
    using autorelease_without_pool [OF no_pool, of "Ptr 0"] no_pool hdr log
    by (simp add: no_pool_message_def)
qed

subsection \<open>Construction\<close>

text \<open>
  C5. \<^verbatim>\<open>TroveString_create\<close> returns whenever its two allocations succeed, and for
  every argument (a string or \<^verbatim>\<open>NULL\<close>) the object it returns has a header with
  \<^verbatim>\<open>ref_count\<close> 1 and \<^verbatim>\<open>dealloc\<close> set to \<^verbatim>\<open>TroveString_dealloc\<close> in the state the caller
  gets back.
\<close>

theorem TroveString_create_header:
  "(alloc_ok s (brk s) \<and> alloc_ok s (Suc (brk s))
      \<longrightarrow> (\<exists>s'. TroveString_create init s = Inr (Ptr (brk s), s')))
   \<and> (\<forall>r s'. TroveString_create init s = Inr (r, s')
      \<longrightarrow> (\<exists>a. r = Ptr a
            \<and> header_at s' a = Some \<lparr>ref_count = 1, dealloc = TroveString_dealloc_ptr\<rparr>))"
  by (cases init)
     (auto simp: TroveString_create_def strdup_def malloc_def header_at_def
           split: if_splits)

theorem TroveString_create_header_witness:
  "alloc_ok program_start (brk program_start)
   \<and> alloc_ok program_start (Suc (brk program_start))
   \<and> TroveString_create (Some ''abc'') program_start = Inr (Ptr 0, abc_state)
   \<and> header_at abc_state 0 = Some \<lparr>ref_count = 1, dealloc = TroveString_dealloc_ptr\<rparr>"
proof -
  have ok: "alloc_ok program_start (brk program_start) \<and> alloc_ok program_start (Suc (brk program_start))"
    by (simp add: program_start_def)
  from TroveString_create_header [of program_start "Some ''abc''"] create_abc
  have "\<exists>a. Ptr 0 = Ptr a \<and> header_at abc_state a = Some \<lparr>ref_count = 1, dealloc = TroveString_dealloc_ptr\<rparr>"
    by blast
  then show ?thesis
    using ok create_abc by simp
qed

text \<open>
  C9. \<^verbatim>\<open>TroveString_create(NULL)\<close> does exactly what \<^verbatim>\<open>TroveString_create("")\<close> does.
  When its two allocations succeed it returns an object with \<^verbatim>\<open>ref_count\<close> 1, the
  destructor set and a \<^verbatim>\<open>str\<close> field that is not null and points to the empty string.
\<close>

theorem TroveString_create_NULL:
  "TroveString_create None s = TroveString_create (Some '''') s
   \<and> (alloc_ok s (brk s) \<and> alloc_ok s (Suc (brk s))
      \<longrightarrow> (\<exists>s'. TroveString_create None s = Inr (Ptr (brk s), s')
            \<and> heap s' (brk s) = Some (StringB
                  \<lparr>base = \<lparr>ref_count = 1, dealloc = TroveString_dealloc_ptr\<rparr>,
                   str = Ptr (Suc (brk s))\<rparr>)
            \<and> heap s' (Suc (brk s)) = Some (CharsB '''')))"
  by (simp add: TroveString_create_def strdup_def malloc_def)

theorem TroveString_create_NULL_witness:
  "alloc_ok program_start (brk program_start)
   \<and> alloc_ok program_start (Suc (brk program_start))
   \<and> (\<exists>s'. TroveString_create None program_start = Inr (Ptr 0, s')
         \<and> heap s' 0 = Some (StringB
               \<lparr>base = \<lparr>ref_count = 1, dealloc = TroveString_dealloc_ptr\<rparr>, str = Ptr 1\<rparr>)
         \<and> heap s' 1 = Some (CharsB ''''))"
proof -
  have ok: "alloc_ok program_start (brk program_start) \<and> alloc_ok program_start (Suc (brk program_start))"
    by (simp add: program_start_def)
  have b: "brk program_start = 0"
    by (simp add: program_start_def)
  show ?thesis
    using TroveString_create_NULL [of program_start, THEN conjunct2] ok b by simp
qed

subsection \<open>Retain and release\<close>

lemma header_at_store_header:
  "header_at s a = Some h \<Longrightarrow> header_at (store_header a h' s) a = Some h'"
  by (cases "heap s a"; cases "the (heap s a)") (auto simp: header_at_def store_header_def)

lemma store_header_twice:
  "store_header a h2 (store_header a h1 s) = store_header a h2 s"
  by (cases "heap s a"; cases "the (heap s a)") (auto simp: store_header_def)

lemma store_header_same:
  "header_at s a = Some h \<Longrightarrow> store_header a h s = s"
  by (cases "heap s a"; cases "the (heap s a)") (auto simp: header_at_def store_header_def fun_upd_idem)

lemma calls_store_header: "calls (store_header a h s) = calls s"
  by (simp add: store_header_def split: option.splits)

lemma arc_retain_live:
  "header_at s a = Some h \<Longrightarrow>
   arc_retain (Ptr a) s = Inr (store_header a (h\<lparr>ref_count := ref_count h + 1\<rparr>) s)"
  by (simp add: arc_retain_def)

lemma arc_release_keeps:
  "header_at s a = Some h \<Longrightarrow> 0 < sint (ref_count h - 1) \<Longrightarrow>
   arc_release X (Ptr a) s = Inr (store_header a (h\<lparr>ref_count := ref_count h - 1\<rparr>) s)"
  by (simp add: arc_release_def Let_def)

lemma arc_release_last:
  "header_at s a = Some h \<Longrightarrow> ref_count h = 1 \<Longrightarrow>
   arc_release X (Ptr a) s =
     (if dealloc h \<noteq> FNULL
      then call_dealloc X (dealloc h) (Ptr a) (store_header a (h\<lparr>ref_count := 0\<rparr>) s)
      else Inr (store_header a (h\<lparr>ref_count := 0\<rparr>) s))"
  by (simp add: arc_release_def Let_def)

lemma repeat_call_snoc:
  "repeat_call (Suc n) f s = (case repeat_call n f s of Inl e \<Rightarrow> Inl e | Inr t \<Rightarrow> f t)"
proof (induction n arbitrary: s)
  case 0
  then show ?case
    by (simp split: sum.splits)
next
  case (Suc n)
  show ?case
  proof (cases "f s")
    case (Inl e)
    then show ?thesis
      by simp
  next
    case (Inr s1)
    with Suc.IH [of s1] show ?thesis
      by simp
  qed
qed

lemma sint_of_nat_small: "n < 2 ^ 31 \<Longrightarrow> sint (of_nat n :: 32 word) = int n"
proof -
  assume "n < 2 ^ 31"
  then have "signed_take_bit (LENGTH(32) - Suc 0) (int n) = int n"
    by (intro signed_take_bit_int_eq_self) simp_all
  then show ?thesis
    by (simp add: signed_of_nat)
qed

lemma retains_closed_form:
  "header_at s a = Some h \<Longrightarrow>
   repeat_call n (arc_retain (Ptr a)) s
     = Inr (store_header a (h\<lparr>ref_count := ref_count h + of_nat n\<rparr>) s)"
proof (induction n arbitrary: s h)
  case 0
  then show ?case
    by (simp add: store_header_same)
next
  case (Suc n)
  let ?h1 = "h\<lparr>ref_count := ref_count h + 1\<rparr>"
  have "header_at (store_header a ?h1 s) a = Some ?h1"
    using Suc.prems by (rule header_at_store_header)
  from Suc.IH [OF this] show ?case
    using Suc.prems by (simp add: arc_retain_live store_header_twice add.assoc)
qed

lemma releases_above_zero:
  "header_at s a = Some h \<Longrightarrow> ref_count h = of_nat k \<Longrightarrow> j < k \<Longrightarrow> k \<le> 2 ^ 31 \<Longrightarrow>
   repeat_call j (arc_release X (Ptr a)) s
     = Inr (store_header a (h\<lparr>ref_count := of_nat (k - j)\<rparr>) s)"
proof (induction j arbitrary: s h k)
  case 0
  then show ?case
    by (simp add: store_header_same)
next
  case (Suc j)
  let ?h1 = "h\<lparr>ref_count := of_nat (k - 1)\<rparr>"
  have dec: "ref_count h - 1 = of_nat (k - 1)"
    using Suc.prems by simp
  have "k - 1 < 2 ^ 31" and pos: "0 < k - 1"
    using Suc.prems by simp_all
  then have "sint (of_nat (k - 1) :: 32 word) = int (k - 1)"
    by (simp only: sint_of_nat_small)
  then have "0 < sint (ref_count h - 1)"
    using pos by (simp only: dec)
  then have step: "arc_release X (Ptr a) s = Inr (store_header a ?h1 s)"
    using Suc.prems(1) by (simp add: arc_release_keeps dec)
  have "header_at (store_header a ?h1 s) a = Some ?h1"
    using Suc.prems(1) by (rule header_at_store_header)
  from Suc.IH [OF this, of "k - 1"] show ?case
    using Suc.prems step by (simp add: store_header_twice)
qed


lemma repeat_call_fails:
  assumes "f s = Inr s1" and "f s1 = Inl e" and "2 \<le> n"
  shows "repeat_call n f s = Inl e"
proof -
  obtain k where "n = Suc (Suc k)"
    using assms(3) by (metis add_2_eq_Suc le_Suc_ex)
  then show ?thesis
    using assms(1,2) by simp
qed

lemma abc_retained:
  "repeat_call n (arc_retain (Ptr 0)) abc_state
     = Inr (store_header 0 \<lparr>ref_count = 1 + of_nat n, dealloc = TroveString_dealloc_ptr\<rparr> abc_state)"
proof -
  have "header_at abc_state 0 = Some \<lparr>ref_count = 1, dealloc = TroveString_dealloc_ptr\<rparr>"
    by (simp add: abc_state_def header_at_def)
  from retains_closed_form [OF this, of n] show ?thesis
    by simp
qed

lemma word_of_sint:
  assumes "0 < sint (w :: 32 word)"
  shows "w = of_nat (nat (sint w))" and "nat (sint w) < 2 ^ 31" and "0 < nat (sint w)"
proof -
  have "word_of_int (sint w) = w"
    by simp
  then show "w = of_nat (nat (sint w))"
    using assms by (simp add: word_of_int_nat)
  have "sint w < 2 ^ (LENGTH(32) - 1)"
    by (rule sint_lt)
  then show "nat (sint w) < 2 ^ 31"
    using assms by simp
  show "0 < nat (sint w)"
    using assms by simp
qed

text \<open>
  C3, for \<open>n < 2\<^sup>3\<^sup>1\<close>. Let the object at \<open>a\<close> have \<^verbatim>\<open>ref_count\<close> 1. Then every one of \<open>n\<close>
  calls of \<^verbatim>\<open>arc_retain\<close> returns, and so does every one of the \<open>n\<close> calls of
  \<^verbatim>\<open>arc_release\<close> that follow; after \<open>k\<close> of the retains the count is \<open>1 + k\<close>, after \<open>m\<close>
  of the releases it is \<open>1 + (n - m)\<close>; at each of these points the record of
  destructor calls is the one of the start, so no destructor has been called; and at
  the end the state is the state of the start, with the count 1 again. The bound on
  \<open>n\<close> is there because \<^verbatim>\<open>ref_count\<close> is an \<^verbatim>\<open>int\<close>. (For \<open>n \<le> 2\<^sup>3\<^sup>1 - 2\<close> no addition
  overflows; for \<open>n = 2\<^sup>3\<^sup>1 - 1\<close> the last retain takes the count from \<^verbatim>\<open>INT_MAX\<close> to
  \<^verbatim>\<open>INT_MIN\<close> and the first release takes it back.)
\<close>

theorem retain_release_balanced:
  assumes "header_at s a = Some h" and "ref_count h = 1" and "n < 2 ^ 31"
  shows "(\<forall>k\<le>n. \<exists>t. repeat_call k (arc_retain (Ptr a)) s = Inr t
            \<and> header_at t a = Some (h\<lparr>ref_count := 1 + of_nat k\<rparr>) \<and> calls t = calls s)
       \<and> (\<forall>m\<le>n. \<exists>t. retains_then_releases X (Ptr a) n m s = Inr t
            \<and> header_at t a = Some (h\<lparr>ref_count := 1 + of_nat (n - m)\<rparr>) \<and> calls t = calls s)
       \<and> retains_then_releases X (Ptr a) n n s = Inr s"
proof (intro conjI allI impI)
  fix k
  show "\<exists>t. repeat_call k (arc_retain (Ptr a)) s = Inr t
            \<and> header_at t a = Some (h\<lparr>ref_count := 1 + of_nat k\<rparr>) \<and> calls t = calls s"
    using assms(1,2)
    by (simp add: retains_closed_form header_at_store_header calls_store_header)
next
  let ?h1 = "h\<lparr>ref_count := of_nat (Suc n)\<rparr>"
  let ?s1 = "store_header a ?h1 s"
  have retained: "repeat_call n (arc_retain (Ptr a)) s = Inr ?s1"
    using assms(1,2) by (simp add: retains_closed_form)
  have live: "header_at ?s1 a = Some ?h1"
    using assms(1) by (rule header_at_store_header)
  have released: "repeat_call m (arc_release X (Ptr a)) ?s1
      = Inr (store_header a (h\<lparr>ref_count := of_nat (Suc n - m)\<rparr>) s)" if "m \<le> n" for m
    using releases_above_zero [OF live, of "Suc n" m X] that assms(3)
    by (simp add: store_header_twice)
  {
    fix m
    assume "m \<le> n"
    then show "\<exists>t. retains_then_releases X (Ptr a) n m s = Inr t
            \<and> header_at t a = Some (h\<lparr>ref_count := 1 + of_nat (n - m)\<rparr>) \<and> calls t = calls s"
      using assms(1) released [of m]
      by (simp add: retains_then_releases_def retained header_at_store_header calls_store_header
          Suc_diff_le)
  }
  show "retains_then_releases X (Ptr a) n n s = Inr s"
    using released [of n] assms(1,2)
    by (simp add: retains_then_releases_def retained store_header_same)
qed


theorem retain_release_balanced_witness:
  "header_at abc_state 0 = Some \<lparr>ref_count = 1, dealloc = TroveString_dealloc_ptr\<rparr>
   \<and> (3 :: nat) < 2 ^ 31
   \<and> retains_then_releases idle_dtors (Ptr 0) 3 3 abc_state = Inr abc_state"
proof -
  have hdr: "header_at abc_state 0 = Some \<lparr>ref_count = 1, dealloc = TroveString_dealloc_ptr\<rparr>"
    by (simp add: abc_state_def header_at_def)
  have "ref_count \<lparr>ref_count = 1, dealloc = TroveString_dealloc_ptr\<rparr> = 1" and "(3 :: nat) < 2 ^ 31"
    by simp_all
  from retain_release_balanced [OF hdr this, of idle_dtors] hdr show ?thesis
    by simp
qed

text \<open>
  C3 does not hold for every \<open>n\<close>: it fails at \<open>n = 2\<^sup>3\<^sup>1\<close>. Start from the string object
  that \<^verbatim>\<open>TroveString_create("abc")\<close> returns (its count is 1). After \<open>2\<^sup>3\<^sup>1\<close> calls of
  \<^verbatim>\<open>arc_retain\<close> the 32-bit count has wrapped around to \<open>-2\<^sup>3\<^sup>1 + 1\<close>; the first call of
  \<^verbatim>\<open>arc_release\<close> makes it \<open>-2\<^sup>3\<^sup>1\<close>, which is \<open>\<le> 0\<close>, so the destructor is called and the
  object is freed; the second release reads freed storage.
\<close>

theorem retain_release_overflow:
  "header_at abc_state 0 = Some \<lparr>ref_count = 1, dealloc = TroveString_dealloc_ptr\<rparr>
   \<and> retains_then_releases idle_dtors (Ptr 0) 2147483648 1 abc_state
       = Inr (program_start\<lparr>brk := 2, calls := [(TroveString_dealloc_ptr, Ptr 0)]\<rparr>)
   \<and> retains_then_releases idle_dtors (Ptr 0) 2147483648 2147483648 abc_state = Inl UB"
proof -
  let ?s1 = "store_header 0 \<lparr>ref_count = 2147483649, dealloc = TroveString_dealloc_ptr\<rparr> abc_state"
  let ?s2 = "program_start\<lparr>brk := 2, calls := [(TroveString_dealloc_ptr, Ptr 0)]\<rparr>"
  have hdr: "header_at abc_state 0 = Some \<lparr>ref_count = 1, dealloc = TroveString_dealloc_ptr\<rparr>"
    by (simp add: abc_state_def header_at_def)
  have retained: "repeat_call 2147483648 (arc_retain (Ptr 0)) abc_state = Inr ?s1"
    using abc_retained [of 2147483648] by simp
  have first: "arc_release idle_dtors (Ptr 0) ?s1 = Inr ?s2"
    by (simp add: arc_release_def header_at_def store_header_def abc_state_def program_start_def
        call_dealloc_def TroveString_dealloc_def free_def Let_def)
  have second: "arc_release idle_dtors (Ptr 0) ?s2 = Inl UB"
    by (simp add: arc_release_def header_at_def program_start_def)
  have "repeat_call 2147483648 (arc_release idle_dtors (Ptr 0)) ?s1 = Inl UB"
    using first second by (rule repeat_call_fails) simp
  moreover have "repeat_call 1 (arc_release idle_dtors (Ptr 0)) ?s1 = Inr ?s2"
    by (simp add: first)
  ultimately show ?thesis
    using hdr by (simp add: retains_then_releases_def retained)
qed


lemma calls_free: "free q s = Inr t \<Longrightarrow> calls t = calls s"
  by (auto simp: free_def split: ptr.splits if_splits)

lemma calls_TroveString_dealloc: "TroveString_dealloc obj s = Inr t \<Longrightarrow> calls t = calls s"
  by (auto simp: TroveString_dealloc_def split: ptr.splits option.splits block.splits
        sum.splits if_splits dest!: calls_free)

lemma logging_quiet: "\<forall>n q u u'. logging_dtors n q u = Inr u' \<longrightarrow> calls u' = calls u"
  by (auto simp: logging_dtors_def fprintf_stderr_def dest: calls_free)

text \<open>
  C4. Let the object at \<open>a\<close> have \<^verbatim>\<open>ref_count\<close> \<open>r \<ge> 1\<close>, and let \<^verbatim>\<open>arc_release\<close> be called
  on it \<open>r\<close> times in a row. Each of the first \<open>r - 1\<close> calls returns and only lowers the
  count by one: no destructor runs, and the record of destructor calls does not change.
  The \<open>r\<close>-th call sets the count to 0 and then calls the destructor of the object, on
  the object, once: \<^verbatim>\<open>TroveString_dealloc\<close> for a string, the function \<open>X n\<close> of client
  code for an object whose \<^verbatim>\<open>dealloc\<close> field is that function; the call is entered in the
  record, and what the release returns is what the destructor returns. When the
  destructors of client code make no calls through \<^verbatim>\<open>dealloc\<close> fields themselves, the \<open>r\<close>
  releases together add exactly one entry to the record, the call of the destructor of
  the object on the object. (An object whose \<^verbatim>\<open>dealloc\<close> field is null has no destructor:
  for it the \<open>r\<close>-th call only sets the count to 0.)
\<close>

theorem release_to_zero:
  assumes "header_at s a = Some h" and "0 < sint (ref_count h)" and "r = nat (sint (ref_count h))"
  shows "(\<forall>j<r. repeat_call j (arc_release X (Ptr a)) s
              = Inr (store_header a (h\<lparr>ref_count := ref_count h - of_nat j\<rparr>) s)
            \<and> calls (store_header a (h\<lparr>ref_count := ref_count h - of_nat j\<rparr>) s) = calls s)
       \<and> repeat_call r (arc_release X (Ptr a)) s
           = (case dealloc h of
                FNULL \<Rightarrow> Inr (store_header a (h\<lparr>ref_count := 0\<rparr>) s)
              | TroveString_dealloc_ptr \<Rightarrow>
                  TroveString_dealloc (Ptr a)
                    ((store_header a (h\<lparr>ref_count := 0\<rparr>) s)
                       \<lparr>calls := calls s @ [(TroveString_dealloc_ptr, Ptr a)]\<rparr>)
              | ExternFn n \<Rightarrow>
                  X n (Ptr a)
                    ((store_header a (h\<lparr>ref_count := 0\<rparr>) s)
                       \<lparr>calls := calls s @ [(ExternFn n, Ptr a)]\<rparr>))
       \<and> ((\<forall>n q u u'. X n q u = Inr u' \<longrightarrow> calls u' = calls u) \<and> dealloc h \<noteq> FNULL
            \<longrightarrow> (\<forall>t. repeat_call r (arc_release X (Ptr a)) s = Inr t
                   \<longrightarrow> calls t = calls s @ [(dealloc h, Ptr a)]))"
proof -
  let ?s0 = "store_header a (h\<lparr>ref_count := 0\<rparr>) s"
  have rc: "ref_count h = of_nat r" and small: "r < 2 ^ 31" and pos: "0 < r"
    using word_of_sint [OF assms(2)] assms(3) by simp_all
  have before: "repeat_call j (arc_release X (Ptr a)) s
      = Inr (store_header a (h\<lparr>ref_count := ref_count h - of_nat j\<rparr>) s)" if "j < r" for j
    using releases_above_zero [OF assms(1) rc that, of X] small that
    by (simp add: rc)
  obtain r' where r': "r = Suc r'"
    using pos by (cases r) simp_all
  let ?h1 = "h\<lparr>ref_count := 1\<rparr>"
  have almost: "repeat_call r' (arc_release X (Ptr a)) s = Inr (store_header a ?h1 s)"
    using before [of r'] by (simp add: r' rc)
  have live: "header_at (store_header a ?h1 s) a = Some ?h1"
    using assms(1) by (rule header_at_store_header)
  have "repeat_call r (arc_release X (Ptr a)) s = arc_release X (Ptr a) (store_header a ?h1 s)"
    unfolding r' by (simp only: repeat_call_snoc almost sum.case)
  also have "\<dots> = (if dealloc h \<noteq> FNULL
              then call_dealloc X (dealloc h) (Ptr a) ?s0
              else Inr ?s0)"
    using arc_release_last [OF live, of X] by (simp add: store_header_twice)
  also have "\<dots> = (case dealloc h of
                FNULL \<Rightarrow> Inr ?s0
              | TroveString_dealloc_ptr \<Rightarrow>
                  TroveString_dealloc (Ptr a)
                    (?s0\<lparr>calls := calls s @ [(TroveString_dealloc_ptr, Ptr a)]\<rparr>)
              | ExternFn n \<Rightarrow>
                  X n (Ptr a) (?s0\<lparr>calls := calls s @ [(ExternFn n, Ptr a)]\<rparr>))"
    by (cases "dealloc h") (simp_all add: call_dealloc_def calls_store_header)
  finally have last: "repeat_call r (arc_release X (Ptr a)) s = (case dealloc h of
                FNULL \<Rightarrow> Inr ?s0
              | TroveString_dealloc_ptr \<Rightarrow>
                  TroveString_dealloc (Ptr a)
                    (?s0\<lparr>calls := calls s @ [(TroveString_dealloc_ptr, Ptr a)]\<rparr>)
              | ExternFn n \<Rightarrow>
                  X n (Ptr a) (?s0\<lparr>calls := calls s @ [(ExternFn n, Ptr a)]\<rparr>))" .
  have once: "calls t = calls s @ [(dealloc h, Ptr a)]"
    if quiet: "\<forall>n q u u'. X n q u = Inr u' \<longrightarrow> calls u' = calls u"
      and f: "dealloc h \<noteq> FNULL" and run: "repeat_call r (arc_release X (Ptr a)) s = Inr t" for t
  proof (cases "dealloc h")
    case FNULL
    then show ?thesis
      using f by simp
  next
    case TroveString_dealloc_ptr
    then have "TroveString_dealloc (Ptr a)
        (?s0\<lparr>calls := calls s @ [(TroveString_dealloc_ptr, Ptr a)]\<rparr>) = Inr t"
      using run last by simp
    from calls_TroveString_dealloc [OF this] show ?thesis
      using TroveString_dealloc_ptr by simp
  next
    case (ExternFn n)
    then have "X n (Ptr a) (?s0\<lparr>calls := calls s @ [(ExternFn n, Ptr a)]\<rparr>) = Inr t"
      using run last by simp
    with quiet have "calls t = calls (?s0\<lparr>calls := calls s @ [(ExternFn n, Ptr a)]\<rparr>)"
      by blast
    then show ?thesis
      using ExternFn by simp
  qed
  have first: "\<forall>j<r. repeat_call j (arc_release X (Ptr a)) s
              = Inr (store_header a (h\<lparr>ref_count := ref_count h - of_nat j\<rparr>) s)
            \<and> calls (store_header a (h\<lparr>ref_count := ref_count h - of_nat j\<rparr>) s) = calls s"
    using before by (simp add: calls_store_header)
  from first last once show ?thesis
    by blast
qed


theorem release_to_zero_witness:
  "header_at (store_header 0 \<lparr>ref_count = 3, dealloc = TroveString_dealloc_ptr\<rparr> abc_state) 0
     = Some \<lparr>ref_count = 3, dealloc = TroveString_dealloc_ptr\<rparr>
   \<and> 0 < sint (3 :: 32 word) \<and> 3 = nat (sint (3 :: 32 word))
   \<and> repeat_call 2 (arc_release idle_dtors (Ptr 0))
         (store_header 0 \<lparr>ref_count = 3, dealloc = TroveString_dealloc_ptr\<rparr> abc_state)
       = Inr abc_state
   \<and> repeat_call 3 (arc_release idle_dtors (Ptr 0))
         (store_header 0 \<lparr>ref_count = 3, dealloc = TroveString_dealloc_ptr\<rparr> abc_state)
       = Inr (program_start\<lparr>brk := 2, calls := [(TroveString_dealloc_ptr, Ptr 0)]\<rparr>)
   \<and> header_at client_object_state 0 = Some \<lparr>ref_count = 2, dealloc = ExternFn 0\<rparr>
   \<and> 0 < sint (2 :: 32 word) \<and> 2 = nat (sint (2 :: 32 word))
   \<and> repeat_call 1 (arc_release logging_dtors (Ptr 0)) client_object_state
       = Inr (store_header 0 \<lparr>ref_count = 1, dealloc = ExternFn 0\<rparr> client_object_state)
   \<and> calls (store_header 0 \<lparr>ref_count = 1, dealloc = ExternFn 0\<rparr> client_object_state) = []
   \<and> stderr (store_header 0 \<lparr>ref_count = 1, dealloc = ExternFn 0\<rparr> client_object_state) = []
   \<and> repeat_call 2 (arc_release logging_dtors (Ptr 0)) client_object_state
       = Inr (program_start\<lparr>brk := 1, stderr := [destroyed_message],
                calls := [(ExternFn 0, Ptr 0)]\<rparr>)"
proof -
  let ?h = "\<lparr>ref_count = 3, dealloc = TroveString_dealloc_ptr\<rparr>"
  let ?s = "store_header 0 ?h abc_state"
  have hdr: "header_at ?s 0 = Some ?h"
    by (simp add: abc_state_def header_at_def store_header_def)
  have pos: "0 < sint (ref_count ?h)" and r: "3 = nat (sint (ref_count ?h))"
    by simp_all
  note main = release_to_zero [OF hdr pos r, of idle_dtors]
  have two: "repeat_call 2 (arc_release idle_dtors (Ptr 0)) ?s = Inr abc_state"
    using main [THEN conjunct1, rule_format, of 2]
    by (simp add: store_header_def abc_state_def fun_upd_twist)
  have three: "repeat_call 3 (arc_release idle_dtors (Ptr 0)) ?s
      = Inr (program_start\<lparr>brk := 2, calls := [(TroveString_dealloc_ptr, Ptr 0)]\<rparr>)"
    using main [THEN conjunct2, THEN conjunct1]
    by (simp add: store_header_def abc_state_def program_start_def
        TroveString_dealloc_def free_def)
  let ?g = "\<lparr>ref_count = 2, dealloc = ExternFn 0\<rparr>"
  let ?c = "client_object_state"
  have hdr': "header_at ?c 0 = Some ?g"
    by (simp add: client_object_state_def header_at_def)
  have pos': "0 < sint (ref_count ?g)" and r': "2 = nat (sint (ref_count ?g))"
    by simp_all
  note client = release_to_zero [OF hdr' pos' r', of logging_dtors]
  have one': "repeat_call 1 (arc_release logging_dtors (Ptr 0)) ?c
      = Inr (store_header 0 \<lparr>ref_count = 1, dealloc = ExternFn 0\<rparr> ?c)"
    using client [THEN conjunct1, rule_format, of 1] by simp
  have two': "repeat_call 2 (arc_release logging_dtors (Ptr 0)) ?c
      = Inr (program_start\<lparr>brk := 1, stderr := [destroyed_message],
                calls := [(ExternFn 0, Ptr 0)]\<rparr>)"
    using client [THEN conjunct2, THEN conjunct1]
    by (simp add: store_header_def client_object_state_def program_start_def
        logging_dtors_def fprintf_stderr_def free_def)
  from client [THEN conjunct2, THEN conjunct2] logging_quiet
  have once': "\<forall>t. repeat_call 2 (arc_release logging_dtors (Ptr 0)) ?c = Inr t
      \<longrightarrow> calls t = calls ?c @ [(dealloc ?g, Ptr 0)]"
    by simp
  have "calls (store_header 0 \<lparr>ref_count = 1, dealloc = ExternFn 0\<rparr> ?c) = []"
    and "stderr (store_header 0 \<lparr>ref_count = 1, dealloc = ExternFn 0\<rparr> ?c) = []"
    by (simp_all add: store_header_def client_object_state_def)
  then show ?thesis
    using hdr two three hdr' one' two' once' by simp
qed


subsection \<open>Registration in the current pool\<close>

lemma current_poolD:
  assumes "current_pool s = Some (p, pool, a, xs)"
  shows "current_autorelease_pool s = Ptr p" and "heap s p = Some (PoolB pool)"
    and "objects pool = Ptr a" and "heap s a = Some (ArrayB xs)" and "a \<noteq> p"
  using assms
  by (auto simp: current_pool_def split: ptr.splits option.splits block.splits)

lemma current_poolI:
  "current_autorelease_pool s = Ptr p \<Longrightarrow> heap s p = Some (PoolB pool) \<Longrightarrow>
   objects pool = Ptr a \<Longrightarrow> heap s a = Some (ArrayB xs) \<Longrightarrow>
   current_pool s = Some (p, pool, a, xs)"
  by (simp add: current_pool_def)

lemma registered_iff:
  "registered s = Some objs \<longleftrightarrow>
     (\<exists>p pool a xs. current_pool s = Some (p, pool, a, xs)
        \<and> unat (count pool) \<le> length xs
        \<and> take (unat (count pool)) xs = map Some objs)"
proof -
  have *: "None \<notin> set ys \<Longrightarrow> map (Some \<circ> the) ys = ys" for ys :: "ptr option list"
    by (induction ys) auto
  show ?thesis
    by (auto simp: registered_def Let_def * split: option.splits)
qed

lemma add_without_growth:
  assumes "current_pool s = Some (p, pool, a, xs)" and "\<not> capacity pool \<le> count pool"
  shows "autorelease_add obj s =
     (if unat (count pool) < length xs
      then Inr (s\<lparr>heap := (heap s)(a \<mapsto> ArrayB (xs[unat (count pool) := Some obj]),
                                    p \<mapsto> PoolB (pool\<lparr>count := count pool + 1\<rparr>))\<rparr>)
      else Inl UB)"
  using current_poolD [OF assms(1)] assms(2)
  by (simp add: autorelease_add_def)

lemma add_with_growth:
  assumes "current_pool s = Some (p, pool, a, xs)" and "capacity pool \<le> count pool"
    and "p \<noteq> brk s"
  shows "autorelease_add obj s =
     (if capacity pool * 2 * 8 = 0 \<or> \<not> alloc_ok s (brk s)
      then Inl (Exit 1 realloc_failed_message)
      else if unat (count pool) < array_slots (capacity pool * 2 * 8)
      then Inr (s\<lparr>heap := (heap s)
                   (a := None,
                    brk s \<mapsto> ArrayB ((resize (array_slots (capacity pool * 2 * 8)) xs)
                                        [unat (count pool) := Some obj]),
                    p \<mapsto> PoolB (pool\<lparr>capacity := capacity pool * 2, objects := Ptr (brk s),
                                      count := count pool + 1\<rparr>)),
                brk := Suc (brk s)\<rparr>)
      else Inl UB)"
  using current_poolD [OF assms(1)] assms(2,3)
  by (auto simp: autorelease_add_def realloc_def Let_def realloc_failed_message_def resize_def)


lemma length_resize: "length (resize m xs) = m"
  by (simp add: resize_def)

lemma take_resize: "n \<le> length xs \<Longrightarrow> n \<le> m \<Longrightarrow> take n (resize m xs) = take n xs"
  by (simp add: resize_def min_def)

lemma take_Suc_update:
  "n < length xs \<Longrightarrow> take (Suc n) (xs[n := v]) = take n xs @ [v]"
  by (simp add: take_Suc_conv_app_nth)

lemma unat_succ_slots:
  assumes "unat (i :: 64 word) < array_slots nbytes"
  shows "unat (i + 1) = Suc (unat i)"
proof -
  have "unat nbytes < 2 ^ 64"
    using unsigned_less [of nbytes] by simp
  then have "unat i + unat (1 :: 64 word) < 2 ^ LENGTH(64)"
    using assms by (simp add: array_slots_def)
  then have "unat (i + 1) = unat i + unat (1 :: 64 word)"
    by (simp only: unat_add_lem)
  then show ?thesis
    by simp
qed

lemma add_step:
  assumes cp: "current_pool s = Some (p, pool, a, xs)"
    and n: "unat (count pool) \<le> length xs"
    and tk: "take (unat (count pool)) xs = map Some objs"
    and below: "p < brk s" "a < brk s"
    and ok: "autorelease_add obj s = Inr s'"
  shows "\<exists>pool' a' xs'.
           current_pool s' = Some (p, pool', a', xs')
         \<and> unat (count pool') = Suc (unat (count pool))
         \<and> unat (count pool') \<le> length xs'
         \<and> take (unat (count pool')) xs' = map Some (objs @ [obj])
         \<and> p < brk s' \<and> a' < brk s' \<and> brk s \<le> brk s'
         \<and> (a' = a \<or> a' = brk s \<and> heap s' a = None)
         \<and> (count pool < capacity pool \<and> capacity pool' = capacity pool
                \<and> length xs' = length xs
              \<or> capacity pool \<le> count pool \<and> capacity pool' = capacity pool * 2
                \<and> length xs' = array_slots (capacity pool * 2 * 8)
                \<and> unat (count pool) < length xs')
         \<and> (\<forall>b. b \<noteq> p \<longrightarrow> b \<noteq> a \<longrightarrow> b \<noteq> a' \<longrightarrow> heap s' b = heap s b)
         \<and> current_autorelease_pool s' = current_autorelease_pool s
         \<and> stderr s' = stderr s \<and> calls s' = calls s \<and> alloc_ok s' = alloc_ok s"
proof (cases "capacity pool \<le> count pool")
  case False
  let ?n = "unat (count pool)"
  let ?pool' = "pool\<lparr>count := count pool + 1\<rparr>"
  let ?xs' = "xs[?n := Some obj]"
  note d = current_poolD [OF cp]
  from ok add_without_growth [OF cp False, of obj]
  have room: "?n < length xs"
    and s': "s' = s\<lparr>heap := (heap s)(a \<mapsto> ArrayB ?xs', p \<mapsto> PoolB ?pool')\<rparr>"
    by (simp_all split: if_splits)
  have cp': "current_pool s' = Some (p, ?pool', a, ?xs')"
    using d by (intro current_poolI) (simp_all add: s')
  have "count pool < capacity pool"
    using False by simp
  note lt = this
  then have cnt: "unat (count ?pool') = Suc ?n"
    by (simp add: unat_succ_below)
  have "take (Suc ?n) ?xs' = map Some (objs @ [obj])"
    using room tk by (simp add: take_Suc_update)
  then show ?thesis
    using cp' cnt room below lt by (simp add: s')
next
  case True
  let ?n = "unat (count pool)"
  let ?m = "array_slots (capacity pool * 2 * 8)"
  let ?pool' = "pool\<lparr>capacity := capacity pool * 2, objects := Ptr (brk s),
                      count := count pool + 1\<rparr>"
  let ?xs' = "(resize ?m xs)[?n := Some obj]"
  note d = current_poolD [OF cp]
  have "p \<noteq> brk s"
    using below by simp
  from ok add_with_growth [OF cp True this, of obj]
  have room: "?n < ?m"
    and s': "s' = s\<lparr>heap := (heap s)(a := None, brk s \<mapsto> ArrayB ?xs', p \<mapsto> PoolB ?pool'),
                      brk := Suc (brk s)\<rparr>"
    by (simp_all split: if_splits)
  have cp': "current_pool s' = Some (p, ?pool', brk s, ?xs')"
    using d below by (intro current_poolI) (simp_all add: s')
  have cnt: "unat (count ?pool') = Suc ?n"
    using room by (simp add: unat_succ_slots)
  have "take (Suc ?n) ?xs' = take ?n (resize ?m xs) @ [Some obj]"
    using room by (simp add: take_Suc_update length_resize)
  also have "\<dots> = map Some (objs @ [obj])"
    using room n tk by (simp add: take_resize)
  finally have tk': "take (Suc ?n) ?xs' = map Some (objs @ [obj])" .
  have gone: "heap s' a = None"
    using d below by (simp add: s')
  show ?thesis
    using cp' cnt room below tk' gone True
    by (simp add: s' length_resize)
qed


lemma autorelease_add_headers:
  assumes "heap_wf s" and "autorelease_add obj s = Inr s'"
  shows "header_at s' b = header_at s b"
  using assms
  by (auto simp: autorelease_add_def realloc_def malloc_def header_at_def heap_wf_def
        fprintf_stderr_def Let_def
      split: ptr.splits option.splits block.splits if_splits sum.splits prod.splits)


lemma push_abc: "autorelease_pool_push abc_state = Inr abc_pool_state"
  by (simp add: autorelease_pool_push_def malloc_def abc_state_def abc_pool_state_def
      array_slots_def fun_upd_twist)

lemma registeredD:
  assumes "registered s = Some objs"
  obtains p pool a xs where "current_pool s = Some (p, pool, a, xs)"
    and "unat (count pool) \<le> length xs" and "take (unat (count pool)) xs = map Some objs"
  using assms unfolding registered_iff by blast

lemma registeredI:
  "current_pool s = Some (p, pool, a, xs) \<Longrightarrow> unat (count pool) \<le> length xs \<Longrightarrow>
   take (unat (count pool)) xs = map Some objs \<Longrightarrow> registered s = Some objs"
  unfolding registered_iff by blast

lemma heap_wf_below: "heap_wf s \<Longrightarrow> heap s a = Some b \<Longrightarrow> a < brk s"
  by (fastforce simp: heap_wf_def not_le [symmetric])

text \<open>
  C7. Whenever \<^verbatim>\<open>arc_autorelease(obj)\<close> returns, it returns \<open>obj\<close>. In a state that the
  allocator can be in (no storage at or above \<open>brk\<close>), the header of every object in
  the heap, so the \<^verbatim>\<open>ref_count\<close> and the \<^verbatim>\<open>dealloc\<close> field of \<open>obj\<close>, is then what it was
  before the call; and when there is a current pool, with the objects \<open>objs\<close>
  registered in it, then after the call the objects registered in it are \<open>objs\<close>
  followed by \<open>obj\<close>, and nothing else has changed: the storage outside the pool's own
  struct and array, the pointer \<^verbatim>\<open>current_autorelease_pool\<close>, the output on \<^verbatim>\<open>stderr\<close> and
  the record of destructor calls are the same. (The call does not return when the
  array is full and cannot be enlarged: then the program exits.)
\<close>

theorem arc_autorelease_frame:
  assumes ret: "arc_autorelease obj s = Inr (r, s')"
  shows "r = obj
       \<and> (heap_wf s \<longrightarrow>
            (\<forall>b. header_at s' b = header_at s b)
          \<and> (\<forall>objs. registered s = Some objs \<longrightarrow>
                 registered s' = Some (objs @ [obj])
               \<and> other_storage s' = other_storage s
               \<and> current_autorelease_pool s' = current_autorelease_pool s
               \<and> stderr s' = stderr s \<and> calls s' = calls s \<and> alloc_ok s' = alloc_ok s))"
proof (intro conjI allI impI)
  from ret have add: "autorelease_add obj s = Inr s'" and r: "r = obj"
    by (auto simp: arc_autorelease_def split: sum.splits)
  show "r = obj"
    by (fact r)
  assume wf: "heap_wf s"
  show "header_at s' b = header_at s b" for b
    using wf add by (rule autorelease_add_headers)
  fix objs
  assume "registered s = Some objs"
  then obtain p pool a xs where cp: "current_pool s = Some (p, pool, a, xs)"
    and n: "unat (count pool) \<le> length xs" and tk: "take (unat (count pool)) xs = map Some objs"
    by (rule registeredD)
  note d = current_poolD [OF cp]
  have below: "p < brk s" "a < brk s"
    using wf d by (auto intro: heap_wf_below)
  from add_step [OF cp n tk below add]
  obtain pool' a' xs' where cp': "current_pool s' = Some (p, pool', a', xs')"
    and n': "unat (count pool') \<le> length xs'"
    and tk': "take (unat (count pool')) xs' = map Some (objs @ [obj])"
    and moved: "a' = a \<or> a' = brk s \<and> heap s' a = None"
    and frame: "\<forall>b. b \<noteq> p \<longrightarrow> b \<noteq> a \<longrightarrow> b \<noteq> a' \<longrightarrow> heap s' b = heap s b"
    and rest: "current_autorelease_pool s' = current_autorelease_pool s"
      "stderr s' = stderr s" "calls s' = calls s" "alloc_ok s' = alloc_ok s"
    by blast
  show "registered s' = Some (objs @ [obj])"
    using cp' n' tk' by (rule registeredI)
  show "current_autorelease_pool s' = current_autorelease_pool s"
    and "stderr s' = stderr s" and "calls s' = calls s" and "alloc_ok s' = alloc_ok s"
    by (fact rest)+
  show "other_storage s' = other_storage s"
  proof
    fix b
    have fresh: "heap s (brk s) = None"
      using wf by (simp add: heap_wf_def)
    show "other_storage s' b = other_storage s b"
      using moved frame fresh
      by (auto simp: other_storage_def pool_storage_def cp cp')
  qed
qed

lemma abc_pool: "current_pool abc_pool_state
    = Some (2, \<lparr>objects = Ptr 3, count = 0, capacity = 16\<rparr>, 3, replicate 16 None)"
  by (simp add: current_pool_def abc_pool_state_def)

lemma autorelease_abc: "arc_autorelease (Ptr 0) abc_pool_state = Inr (Ptr 0, abc_registered_state)"
  using add_without_growth [OF abc_pool, of "Ptr 0"]
  by (simp add: arc_autorelease_def abc_registered_state_def)

theorem arc_autorelease_frame_witness:
  "heap_wf abc_pool_state
   \<and> registered abc_pool_state = Some []
   \<and> header_at abc_pool_state 0 = Some \<lparr>ref_count = 1, dealloc = TroveString_dealloc_ptr\<rparr>
   \<and> arc_autorelease (Ptr 0) abc_pool_state = Inr (Ptr 0, abc_registered_state)
   \<and> registered abc_registered_state = Some [Ptr 0]
   \<and> header_at abc_registered_state 0
       = Some \<lparr>ref_count = 1, dealloc = TroveString_dealloc_ptr\<rparr>
   \<and> other_storage abc_registered_state = other_storage abc_pool_state"
proof -
  have wf: "heap_wf abc_pool_state"
    by (simp add: heap_wf_def abc_pool_state_def)
  have reg: "registered abc_pool_state = Some []"
    by (simp add: registered_def abc_pool)
  have hdr: "header_at abc_pool_state 0 = Some \<lparr>ref_count = 1, dealloc = TroveString_dealloc_ptr\<rparr>"
    by (simp add: header_at_def abc_pool_state_def)
  from arc_autorelease_frame [OF autorelease_abc] wf reg hdr
  have "registered abc_registered_state = Some [Ptr 0]
      \<and> header_at abc_registered_state 0
          = Some \<lparr>ref_count = 1, dealloc = TroveString_dealloc_ptr\<rparr>
      \<and> other_storage abc_registered_state = other_storage abc_pool_state"
    by simp
  then show ?thesis
    using wf reg hdr autorelease_abc by simp
qed

subsection \<open>Growth of the pool\<close>

lemma unat_bytes:
  fixes cap :: "64 word"
  assumes "unat cap = 16 * 2 ^ j" and "nbytes = cap * 2 * 8"
  shows "unat nbytes = 2 ^ (j + 8) mod 2 ^ 64"
  using assms by (simp add: unat_word_ariths power_add mult.commute)

lemma doubled_capacity:
  fixes cap :: "64 word"
  assumes c: "unat cap = 16 * 2 ^ j" and room: "unat cap < array_slots (cap * 2 * 8)"
  shows "array_slots (cap * 2 * 8) = 2 * unat cap" and "unat (cap * 2) = 2 * unat cap"
    and "j < 56"
proof -
  define nbytes where "nbytes = cap * 2 * 8"
  note bytes = unat_bytes [OF c nbytes_def]
  have room': "unat cap < unat nbytes div 8"
    using room by (simp only: array_slots_def nbytes_def)
  have small: "j + 8 < 64"
  proof (rule ccontr)
    assume "\<not> j + 8 < 64"
    then obtain d where "j + 8 = 64 + d"
      by (metis le_iff_add not_less)
    then have "(2 :: nat) ^ (j + 8) = 2 ^ 64 * 2 ^ d"
      by (simp only: power_add)
    then have "unat nbytes = 0"
      by (simp only: bytes mod_mult_self1_is_0)
    then show False
      using room' by simp
  qed
  then show "j < 56"
    by simp
  have "(2 :: nat) ^ (j + 8) < 2 ^ 64"
    using small by (rule power_strict_increasing) simp
  then have "unat nbytes = 2 ^ (j + 8)"
    by (simp only: bytes mod_less)
  then have "unat nbytes div 8 = 2 * unat cap"
    by (simp add: c power_add)
  then show "array_slots (cap * 2 * 8) = 2 * unat cap"
    by (simp only: array_slots_def nbytes_def)
  have "(2 :: nat) ^ (j + 5) < 2 ^ 64"
    using small by (intro power_strict_increasing) simp_all
  then have "2 * unat cap < 2 ^ 64"
    by (simp add: c power_add)
  then show "unat (cap * 2) = 2 * unat cap"
    by (simp add: unat_word_ariths)
qed

lemma doubling_succeeds:
  fixes cap :: "64 word"
  assumes c: "unat cap = 16 * 2 ^ j" and "j < 56"
  shows "cap * 2 * 8 \<noteq> 0" and "unat cap < array_slots (cap * 2 * 8)"
proof -
  define nbytes where "nbytes = cap * 2 * 8"
  note bytes = unat_bytes [OF c nbytes_def]
  have "(2 :: nat) ^ (j + 8) < 2 ^ 64"
    using assms(2) by (intro power_strict_increasing) simp_all
  then have eq: "unat nbytes = 2 ^ (j + 8)"
    by (simp only: bytes mod_less)
  then have "unat nbytes \<noteq> 0"
    by simp
  then have "nbytes \<noteq> 0"
    by (simp only: unat_0_iff not_False_eq_True)
  then show "cap * 2 * 8 \<noteq> 0"
    by (simp only: nbytes_def not_False_eq_True)
  have "unat cap < unat nbytes div 8"
    by (simp add: eq c power_add)
  then show "unat cap < array_slots (cap * 2 * 8)"
    by (simp only: array_slots_def nbytes_def)
qed


lemma arc_autorelease_Inr:
  "arc_autorelease obj s = Inr (r, s1) \<longleftrightarrow> autorelease_add obj s = Inr s1 \<and> r = obj"
  by (auto simp: arc_autorelease_def split: sum.splits)

lemma pool_stateD:
  assumes "pool_state s p objs j"
  obtains pool a xs where "current_pool s = Some (p, pool, a, xs)" and "p < brk s" and "a < brk s"
    and "unat (capacity pool) = 16 * 2 ^ j" and "length xs = 16 * 2 ^ j"
    and "unat (count pool) = length objs" and "length objs \<le> 16 * 2 ^ j"
    and "take (length objs) xs = map Some objs"
  using assms by (auto simp: pool_state_def split: option.splits)

lemma pool_stateI:
  "current_pool s = Some (p, pool, a, xs) \<Longrightarrow> p < brk s \<Longrightarrow> a < brk s \<Longrightarrow>
   unat (capacity pool) = 16 * 2 ^ j \<Longrightarrow> length xs = 16 * 2 ^ j \<Longrightarrow>
   unat (count pool) = length objs \<Longrightarrow> length objs \<le> 16 * 2 ^ j \<Longrightarrow>
   take (length objs) xs = map Some objs \<Longrightarrow> pool_state s p objs j"
  by (simp add: pool_state_def)

lemma pool_state_registered:
  assumes "pool_state s p objs j"
  shows "registered s = Some objs"
proof -
  from assms obtain pool a xs where "current_pool s = Some (p, pool, a, xs)"
    and "length xs = 16 * 2 ^ j" and "unat (count pool) = length objs"
    and "length objs \<le> 16 * 2 ^ j" and "take (length objs) xs = map Some objs"
    by (rule pool_stateD)
  then show ?thesis
    by (intro registeredI [of s p pool a xs]) simp_all
qed

lemma push_pool_state:
  assumes "autorelease_pool_push s0 = Inr s"
  shows "pool_state s (brk s0) [] 0" and "alloc_ok s = alloc_ok s0"
  using assms
  by (auto simp: autorelease_pool_push_def malloc_def pool_state_def current_pool_def
        array_slots_def Let_def split: if_splits)

lemma add_keeps_pool_state:
  assumes ps: "pool_state s p dn j" and least: "j = 0 \<or> 16 * 2 ^ j < 2 * length dn"
    and ok: "autorelease_add obj s = Inr s'"
  shows "\<exists>j'. pool_state s' p (dn @ [obj]) j'
            \<and> (j' = 0 \<or> 16 * 2 ^ j' < 2 * length (dn @ [obj]))"
    and "alloc_ok s' = alloc_ok s"
proof -
  from ps obtain pool a xs where cp: "current_pool s = Some (p, pool, a, xs)"
    and below: "p < brk s" "a < brk s"
    and cap: "unat (capacity pool) = 16 * 2 ^ j" and len: "length xs = 16 * 2 ^ j"
    and cnt: "unat (count pool) = length dn" and le: "length dn \<le> 16 * 2 ^ j"
    and tk: "take (length dn) xs = map Some dn"
    by (rule pool_stateD)
  have n: "unat (count pool) \<le> length xs"
    using cnt le len by simp
  have tk0: "take (unat (count pool)) xs = map Some dn"
    using tk cnt by simp
  from add_step [OF cp n tk0 below ok]
  obtain pool' a' xs' where cp': "current_pool s' = Some (p, pool', a', xs')"
    and cnt': "unat (count pool') = Suc (unat (count pool))"
    and tk': "take (unat (count pool')) xs' = map Some (dn @ [obj])"
    and below': "p < brk s'" "a' < brk s'"
    and grow: "count pool < capacity pool \<and> capacity pool' = capacity pool
                \<and> length xs' = length xs
              \<or> capacity pool \<le> count pool \<and> capacity pool' = capacity pool * 2
                \<and> length xs' = array_slots (capacity pool * 2 * 8)
                \<and> unat (count pool) < length xs'"
    and same: "alloc_ok s' = alloc_ok s"
    by blast
  show "alloc_ok s' = alloc_ok s"
    by (fact same)
  have cnt'': "unat (count pool') = length (dn @ [obj])"
    using cnt' cnt by simp
  have tk'': "take (length (dn @ [obj])) xs' = map Some (dn @ [obj])"
    using tk' cnt'' by simp
  from grow show "\<exists>j'. pool_state s' p (dn @ [obj]) j'
            \<and> (j' = 0 \<or> 16 * 2 ^ j' < 2 * length (dn @ [obj]))"
  proof
    assume a: "count pool < capacity pool \<and> capacity pool' = capacity pool
                \<and> length xs' = length xs"
    then have "unat (count pool) < unat (capacity pool)"
      by (simp add: word_less_nat_alt)
    then have "length (dn @ [obj]) \<le> 16 * 2 ^ j"
      using cnt cap by simp
    then have "pool_state s' p (dn @ [obj]) j"
      using cp' below' a cap len cnt'' tk'' by (intro pool_stateI [of s' p pool' a' xs']) simp_all
    then show ?thesis
      using least by auto
  next
    assume a: "capacity pool \<le> count pool \<and> capacity pool' = capacity pool * 2
                \<and> length xs' = array_slots (capacity pool * 2 * 8)
                \<and> unat (count pool) < length xs'"
    then have "unat (capacity pool) \<le> unat (count pool)"
      by (simp add: word_le_nat_alt)
    then have full: "length dn = 16 * 2 ^ j" and eq: "unat (count pool) = unat (capacity pool)"
      using cnt cap le by simp_all
    have room: "unat (capacity pool) < array_slots (capacity pool * 2 * 8)"
      using a eq by simp
    note dbl = doubled_capacity [OF cap room]
    have "pool_state s' p (dn @ [obj]) (Suc j)"
      using cp' below' a cap cnt'' tk'' dbl full
      by (intro pool_stateI [of s' p pool' a' xs']) simp_all
    moreover have "16 * 2 ^ Suc j < 2 * length (dn @ [obj])"
      using full by simp
    ultimately show ?thesis
      by blast
  qed
qed

lemma adds_keep_pool_state:
  assumes "pool_state s p dn j" and "j = 0 \<or> 16 * 2 ^ j < 2 * length dn"
    and "autorelease_all objs s = Inr s'"
  shows "\<exists>j'. pool_state s' p (dn @ objs) j'
            \<and> (j' = 0 \<or> 16 * 2 ^ j' < 2 * length (dn @ objs))"
  using assms
proof (induction objs arbitrary: s dn j)
  case Nil
  then show ?case
    by auto
next
  case (Cons obj objs)
  from Cons.prems(3) obtain s1 where add: "autorelease_add obj s = Inr s1"
    and rest: "autorelease_all objs s1 = Inr s'"
    by (auto simp: arc_autorelease_Inr split: sum.splits)
  from add_keeps_pool_state(1) [OF Cons.prems(1,2) add]
  obtain j1 where "pool_state s1 p (dn @ [obj]) j1"
    and "j1 = 0 \<or> 16 * 2 ^ j1 < 2 * length (dn @ [obj])"
    by blast
  from Cons.IH [OF this rest] show ?case
    by simp
qed

lemma add_succeeds:
  assumes ps: "pool_state s p dn j" and mem: "alloc_ok s (brk s)" and size: "length dn < 2 ^ 60"
  shows "\<exists>s'. autorelease_add obj s = Inr s'"
proof -
  from ps obtain pool a xs where cp: "current_pool s = Some (p, pool, a, xs)"
    and below: "p < brk s"
    and cap: "unat (capacity pool) = 16 * 2 ^ j" and len: "length xs = 16 * 2 ^ j"
    and cnt: "unat (count pool) = length dn" and le: "length dn \<le> 16 * 2 ^ j"
    by (rule pool_stateD)
  show ?thesis
  proof (cases "capacity pool \<le> count pool")
    case False
    then have "count pool < capacity pool"
      by simp
    then have "unat (count pool) < unat (capacity pool)"
      by (simp only: word_less_nat_alt)
    then show ?thesis
      using add_without_growth [OF cp False, of obj] cap len by simp
  next
    case True
    then have "unat (capacity pool) \<le> unat (count pool)"
      by (simp add: word_le_nat_alt)
    then have eq: "unat (count pool) = unat (capacity pool)" and "(2 :: nat) ^ (j + 4) < 2 ^ 60"
      using cnt cap le size by (simp_all add: power_add)
    then have "j + 4 < 60"
      by (simp only: power_strict_increasing_iff [of "2 :: nat"] one_less_numeral_iff
          semiring_norm)
    then have "j < 56"
      by simp
    note dbl = doubling_succeeds [OF cap this]
    have "p \<noteq> brk s"
      using below by simp
    from add_with_growth [OF cp True this, of obj] show ?thesis
      using dbl mem eq by simp
  qed
qed

lemma adds_succeed:
  assumes "pool_state s p dn j" and "j = 0 \<or> 16 * 2 ^ j < 2 * length dn"
    and "\<forall>n. alloc_ok s n" and "length dn + length objs \<le> 2 ^ 60"
  shows "\<exists>s'. autorelease_all objs s = Inr s'"
  using assms
proof (induction objs arbitrary: s dn j)
  case Nil
  then show ?case
    by simp
next
  case (Cons obj objs)
  have "alloc_ok s (brk s)" and "length dn < 2 ^ 60"
    using Cons.prems(3,4) by simp_all
  from add_succeeds [OF Cons.prems(1) this]
  obtain s1 where add: "autorelease_add obj s = Inr s1"
    by blast
  from add_keeps_pool_state [OF Cons.prems(1,2) add]
  obtain j1 where ps1: "pool_state s1 p (dn @ [obj]) j1"
    and least1: "j1 = 0 \<or> 16 * 2 ^ j1 < 2 * length (dn @ [obj])"
    and mem1: "alloc_ok s1 = alloc_ok s"
    by blast
  have "\<forall>n. alloc_ok s1 n" and "length (dn @ [obj]) + length objs \<le> 2 ^ 60"
    using Cons.prems(3,4) mem1 by simp_all
  from Cons.IH [OF ps1 least1 this] show ?case
    using add by (simp add: arc_autorelease_def)
qed

text \<open>
  C8. \<^verbatim>\<open>autorelease_pool_push\<close> leaves an empty current pool of capacity 16. After any
  list \<open>objs\<close> of registrations that all return, the objects registered in that pool
  are exactly \<open>objs\<close>, in the order of registration; its capacity is 16 doubled \<open>j\<close>
  times, where \<open>j\<close> is the least number that makes room for them (the capacity was
  doubled only when the array was full), and the array has that many slots. The
  registrations do all return when every allocation succeeds and there are at most
  \<open>2\<^sup>6\<^sup>0\<close> of them (beyond that the size of the array in bytes does not fit in a
  \<^verbatim>\<open>size_t\<close>).
\<close>

theorem pool_growth_keeps_objects:
  assumes "autorelease_pool_push s0 = Inr s"
  shows "pool_state s (brk s0) [] 0
       \<and> (\<forall>s'. autorelease_all objs s = Inr s' \<longrightarrow>
              registered s' = Some objs
            \<and> (\<exists>j. pool_state s' (brk s0) objs j \<and> (j = 0 \<or> 16 * 2 ^ j < 2 * length objs)))
       \<and> ((\<forall>n. alloc_ok s0 n) \<and> length objs \<le> 2 ^ 60 \<longrightarrow>
              (\<exists>s'. autorelease_all objs s = Inr s'))"
proof (intro conjI allI impI)
  note start = push_pool_state [OF assms]
  show "pool_state s (brk s0) [] 0"
    by (fact start(1))
  {
    fix s'
    assume "autorelease_all objs s = Inr s'"
    from adds_keep_pool_state [OF start(1) _ this]
    show grown: "\<exists>j. pool_state s' (brk s0) objs j \<and> (j = 0 \<or> 16 * 2 ^ j < 2 * length objs)"
      by simp
    then show "registered s' = Some objs"
      by (auto intro: pool_state_registered)
  }
  assume "(\<forall>n. alloc_ok s0 n) \<and> length objs \<le> 2 ^ 60"
  then show "\<exists>s'. autorelease_all objs s = Inr s'"
    using adds_succeed [OF start(1), of objs] start(2) by simp
qed

theorem pool_growth_keeps_objects_witness:
  "autorelease_pool_push abc_state = Inr abc_pool_state
   \<and> (\<forall>n. alloc_ok abc_state n) \<and> length seventeen = 17
   \<and> pool_state abc_pool_state 2 [] 0
   \<and> (\<exists>s'. autorelease_all seventeen abc_pool_state = Inr s'
         \<and> registered s' = Some seventeen
         \<and> pool_state s' 2 seventeen 1)"
proof -
  have mem: "\<forall>n. alloc_ok abc_state n"
    by (simp add: abc_state_def)
  have len: "length seventeen = 17"
    by (simp add: seventeen_def)
  have start: "brk abc_state = 2"
    by (simp add: abc_state_def)
  note main = pool_growth_keeps_objects [OF push_abc, of seventeen, unfolded start]
  from main mem len obtain s' where run: "autorelease_all seventeen abc_pool_state = Inr s'"
    by auto
  with main obtain j where reg: "registered s' = Some seventeen"
    and ps: "pool_state s' 2 seventeen j" and least: "j = 0 \<or> 16 * 2 ^ j < 2 * length seventeen"
    by blast
  from ps have "length seventeen \<le> 16 * 2 ^ j"
    by (rule pool_stateD)
  then have "j \<noteq> 0"
    by (cases j) (simp_all add: len)
  with least have "(2 :: nat) ^ j < 2 ^ 2"
    by (simp add: len)
  then have "j < 2"
    by (simp only: power_strict_increasing_iff [of "2 :: nat"] one_less_numeral_iff semiring_norm)
  with \<open>j \<noteq> 0\<close> have "j = 1"
    by simp
  with ps reg run main mem len push_abc show ?thesis
    by auto
qed

subsection \<open>Popping the pool\<close>

lemma pop_loop_round:
  assumes "heap s p = Some (PoolB pool)" and "objects pool = Ptr a"
    and "heap s a = Some (ArrayB xs)" and "i < count pool" and "unat i < length xs"
    and "xs ! unat i = Some obj"
  shows "pop_loop X p i s =
     (case arc_release X obj s of Inl e \<Rightarrow> Inl e | Inr s1 \<Rightarrow> pop_loop X p (i + 1) s1)"
  using assms by (subst pop_loop.simps) simp

lemma pop_loop_end:
  assumes "heap s p = Some (PoolB pool)" and "\<not> i < count pool"
  shows "pop_loop X p i s = Inr s"
  using assms by (subst pop_loop.simps) simp

lemma pop_loop_release_all:
  assumes "heap s p = Some (PoolB pool)" and "objects pool = Ptr a"
    and "heap s a = Some (ArrayB xs)"
    and "unat (count pool) \<le> length xs" and "take (unat (count pool)) xs = map Some objs"
    and "unat i \<le> unat (count pool)" and "rest = drop (unat i) objs"
    and "\<forall>k\<le>length rest. \<forall>t. release_all X (take k rest) s = Inr t
           \<longrightarrow> heap t p = heap s p \<and> heap t a = heap s a"
  shows "pop_loop X p i s = release_all X rest s"
  using assms
proof (induction rest arbitrary: i s)
  case Nil
  have "length objs = unat (count pool)"
    using Nil.prems(4,5) by (metis length_map length_take min.absorb2)
  then have "\<not> i < count pool"
    using Nil.prems(6,7) by (simp add: word_less_nat_alt)
  then show ?case
    using Nil.prems(1) by (simp add: pop_loop_end)
next
  case (Cons obj rest)
  have len: "length objs = unat (count pool)"
    using Cons.prems(4,5) by (metis length_map length_take min.absorb2)
  have inside: "unat i < length objs"
    using Cons.prems(7) by (metis drop_eq_Nil list.distinct(1) not_le)
  then have lt: "i < count pool"
    using len by (simp add: word_less_nat_alt)
  have "objs ! unat i = obj"
    using Cons.prems(7) inside by (metis Cons_nth_drop_Suc list.inject)
  moreover have "take (unat (count pool)) xs ! unat i = xs ! unat i"
    using inside len by simp
  ultimately have slot: "xs ! unat i = Some obj"
    using Cons.prems(5) inside by simp
  have room: "unat i < length xs"
    using inside len Cons.prems(4) by simp
  have next_i: "unat (i + 1) = Suc (unat i)"
    using lt by (rule unat_succ_below)
  have rest: "rest = drop (unat (i + 1)) objs"
    using Cons.prems(7) by (metis next_i drop_Suc tl_drop list.sel(3))
  show ?case
  proof (cases "arc_release X obj s")
    case (Inl e)
    then show ?thesis
      using pop_loop_round [OF Cons.prems(1,2,3) lt room slot, of X] by simp
  next
    case (Inr s1)
    have "release_all X (take 1 (obj # rest)) s = Inr s1"
      using Inr by simp
    then have kept: "heap s1 p = heap s p \<and> heap s1 a = heap s a"
      using Cons.prems(8) by (metis One_nat_def Suc_leI length_Cons zero_less_Suc)
    have frame: "\<forall>k\<le>length rest. \<forall>t. release_all X (take k rest) s1 = Inr t
           \<longrightarrow> heap t p = heap s1 p \<and> heap t a = heap s1 a"
    proof (intro allI impI)
      fix k t
      assume "k \<le> length rest" and "release_all X (take k rest) s1 = Inr t"
      then have "Suc k \<le> length (obj # rest)"
        and "release_all X (take (Suc k) (obj # rest)) s = Inr t"
        using Inr by simp_all
      with Cons.prems(8) have "heap t p = heap s p \<and> heap t a = heap s a"
        by blast
      with kept show "heap t p = heap s1 p \<and> heap t a = heap s1 a"
        by simp
    qed
    have "unat (i + 1) \<le> unat (count pool)"
      using next_i inside len by simp
    from Cons.IH [OF _ Cons.prems(2) _ Cons.prems(4,5) this rest frame]
    have "pop_loop X p (i + 1) s1 = release_all X rest s1"
      using kept Cons.prems(1,3) by simp
    then show ?thesis
      using pop_loop_round [OF Cons.prems(1,2,3) lt room slot, of X] Inr by simp
  qed
qed


lemma arc_release_calls:
  assumes quiet: "\<forall>n q u u'. X n q u = Inr u' \<longrightarrow> calls u' = calls u"
    and ret: "arc_release X obj s = Inr t"
  shows "calls t = calls s \<or> (\<exists>f. calls t = calls s @ [(f, obj)])"
proof (cases obj)
  case NULL
  then show ?thesis
    using ret by (simp add: arc_release_def)
next
  case (Ptr a)
  from ret Ptr obtain h where h: "header_at s a = Some h"
    by (auto simp: arc_release_def split: option.splits)
  let ?h1 = "h\<lparr>ref_count := ref_count h - 1\<rparr>"
  let ?s1 = "store_header a ?h1 s"
  have s1: "calls ?s1 = calls s"
    by (rule calls_store_header)
  show ?thesis
  proof (cases "sint (ref_count ?h1) \<le> 0 \<and> dealloc h \<noteq> FNULL")
    case False
    then have "t = ?s1"
      using ret Ptr h by (auto simp: arc_release_def Let_def split: if_splits)
    then show ?thesis
      using s1 by simp
  next
    case True
    then have run: "call_dealloc X (dealloc h) obj ?s1 = Inr t"
      using ret Ptr h by (simp add: arc_release_def Let_def)
    let ?s2 = "?s1\<lparr>calls := calls ?s1 @ [(dealloc h, obj)]\<rparr>"
    have "calls t = calls ?s2"
    proof (cases "dealloc h")
      case FNULL
      then show ?thesis
        using True by simp
    next
      case TroveString_dealloc_ptr
      then show ?thesis
        using run by (simp add: call_dealloc_def calls_TroveString_dealloc)
    next
      case (ExternFn n)
      then have "X n obj ?s2 = Inr t"
        using run by (simp add: call_dealloc_def)
      with quiet show ?thesis
        by blast
    qed
    then show ?thesis
      using s1 by simp
  qed
qed

lemma release_all_calls:
  assumes "\<forall>n q u u'. X n q u = Inr u' \<longrightarrow> calls u' = calls u"
    and "release_all X objs s = Inr t"
  shows "\<exists>cs. calls t = calls s @ cs \<and> subseq (map snd cs) objs"
  using assms(2)
proof (induction objs arbitrary: s)
  case Nil
  then show ?case
    by simp
next
  case (Cons obj objs)
  from Cons.prems obtain s1 where one: "arc_release X obj s = Inr s1"
    and rest: "release_all X objs s1 = Inr t"
    by (auto split: sum.splits)
  from Cons.IH [OF rest] obtain cs where cs: "calls t = calls s1 @ cs"
    and sub: "subseq (map snd cs) objs"
    by blast
  from arc_release_calls [OF assms(1) one] show ?case
  proof
    assume "calls s1 = calls s"
    then show ?thesis
      using cs sub by auto
  next
    assume "\<exists>f. calls s1 = calls s @ [(f, obj)]"
    then obtain f where "calls s1 = calls s @ [(f, obj)]"
      by blast
    then have "calls t = calls s @ ((f, obj) # cs)" and "subseq (map snd ((f, obj) # cs)) (obj # objs)"
      using cs sub by simp_all
    then show ?thesis
      by blast
  qed
qed

lemma call_dealloc_calls:
  assumes quiet: "\<forall>n q u u'. X n q u = Inr u' \<longrightarrow> calls u' = calls u"
    and "f \<noteq> FNULL" and run: "call_dealloc X f obj s = Inr t"
  shows "calls t = calls s @ [(f, obj)]"
proof (cases f)
  case FNULL
  then show ?thesis
    using assms(2) by simp
next
  case TroveString_dealloc_ptr
  then show ?thesis
    using run by (auto simp: call_dealloc_def dest: calls_TroveString_dealloc)
next
  case (ExternFn n)
  then have "X n obj (s\<lparr>calls := calls s @ [(f, obj)]\<rparr>) = Inr t"
    using run by (simp add: call_dealloc_def)
  with quiet have "calls t = calls (s\<lparr>calls := calls s @ [(f, obj)]\<rparr>)"
    by blast
  then show ?thesis
    by simp
qed

lemma release_last_reference:
  assumes quiet: "\<forall>n q u u'. X n q u = Inr u' \<longrightarrow> calls u' = calls u"
    and last: "last_reference s obj" and ret: "arc_release X obj s = Inr t"
  shows "calls t = calls s @ [(destructor_of s obj, obj)]"
proof -
  from last obtain a h where obj: "obj = Ptr a" and h: "header_at s a = Some h"
    and one: "ref_count h = 1" and f: "dealloc h \<noteq> FNULL"
    by (auto simp: last_reference_def header_of_def split: ptr.splits option.splits)
  have "call_dealloc X (dealloc h) obj (store_header a (h\<lparr>ref_count := 0\<rparr>) s) = Inr t"
    using ret arc_release_last [OF h one, of X] f obj by simp
  from call_dealloc_calls [OF quiet f this] show ?thesis
    using obj h by (simp add: destructor_of_def header_of_def calls_store_header)
qed

lemma release_all_destroys:
  assumes quiet: "\<forall>n q u u'. X n q u = Inr u' \<longrightarrow> calls u' = calls u"
    and "\<forall>obj\<in>set objs. last_reference s obj"
    and "\<forall>k\<le>length objs. \<forall>t. release_all X (take k objs) s = Inr t
           \<longrightarrow> (\<forall>obj\<in>set (drop k objs). header_of t obj = header_of s obj)"
    and "release_all X objs s = Inr t"
  shows "calls t = calls s @ map (\<lambda>obj. (destructor_of s obj, obj)) objs"
  using assms(2-)
proof (induction objs arbitrary: s)
  case Nil
  then show ?case
    by simp
next
  case (Cons obj objs)
  from Cons.prems(3) obtain s1 where one: "arc_release X obj s = Inr s1"
    and rest: "release_all X objs s1 = Inr t"
    by (auto split: sum.splits)
  have "last_reference s obj"
    using Cons.prems(1) by simp
  from release_last_reference [OF quiet this one]
  have c1: "calls s1 = calls s @ [(destructor_of s obj, obj)]" .
  have "release_all X (take 1 (obj # objs)) s = Inr s1"
    using one by simp
  with Cons.prems(2) have "\<forall>q\<in>set (drop 1 (obj # objs)). header_of s1 q = header_of s q"
    by (metis One_nat_def Suc_leI length_Cons zero_less_Suc)
  then have same: "\<forall>q\<in>set objs. header_of s1 q = header_of s q"
    by simp
  then have last1: "\<forall>q\<in>set objs. last_reference s1 q"
    using Cons.prems(1) by (simp add: last_reference_def)
  have frame1: "\<forall>k\<le>length objs. \<forall>t. release_all X (take k objs) s1 = Inr t
           \<longrightarrow> (\<forall>q\<in>set (drop k objs). header_of t q = header_of s1 q)"
  proof (intro allI impI ballI)
    fix k t q
    assume k: "k \<le> length objs" and run: "release_all X (take k objs) s1 = Inr t"
      and q: "q \<in> set (drop k objs)"
    have "Suc k \<le> length (obj # objs)" and "release_all X (take (Suc k) (obj # objs)) s = Inr t"
      and "q \<in> set (drop (Suc k) (obj # objs))"
      using k run q one by simp_all
    with Cons.prems(2) have "header_of t q = header_of s q"
      by blast
    moreover have "q \<in> set objs"
      using q by (rule in_set_dropD)
    ultimately show "header_of t q = header_of s1 q"
      using same by simp
  qed
  have "map (\<lambda>q. (destructor_of s1 q, q)) objs = map (\<lambda>q. (destructor_of s q, q)) objs"
    using same by (simp add: destructor_of_def)
  with Cons.IH [OF last1 frame1 rest] c1 show ?case
    by simp
qed

lemma other_storage_upd:
  assumes "current_pool t = Some (p, pool, a, xs)"
  shows "other_storage t = (heap t)(a := None, p := None)"
  using assms by (auto simp: other_storage_def pool_storage_def)

lemma idle_quiet: "\<forall>n q u u'. idle_dtors n q u = Inr u' \<longrightarrow> calls u' = calls u"
  by (simp add: idle_dtors_def)

lemma up_to_three: "k \<le> (3 :: nat) \<Longrightarrow> k = 0 \<or> k = 1 \<or> k = 2 \<or> k = 3"
  by arith

lemma take_three:
  "k \<le> (3 :: nat) \<Longrightarrow>
   take k [x, y, z] = (if k = 0 then [] else if k = 1 then [x] else if k = 2 then [x, y] else [x, y, z])"
  by (auto dest!: up_to_three)

lemma pop_refines:
  assumes reg: "registered s = Some objs"
    and frame: "\<forall>k\<le>length objs. \<forall>t. release_all X (take k objs) s = Inr t
                 \<longrightarrow> current_pool t = current_pool s"
  shows "autorelease_pool_pop X s =
           (case release_all X objs s of
              Inl e \<Rightarrow> Inl e
            | Inr t \<Rightarrow> Inr (t\<lparr>heap := other_storage t, current_autorelease_pool := NULL\<rparr>))"
proof -
  from reg obtain p pool a xs where cp: "current_pool s = Some (p, pool, a, xs)"
    and n: "unat (count pool) \<le> length xs" and tk: "take (unat (count pool)) xs = map Some objs"
    by (rule registeredD)
  note d = current_poolD [OF cp]
  have kept: "\<forall>k\<le>length objs. \<forall>t. release_all X (take k objs) s = Inr t
                 \<longrightarrow> heap t p = heap s p \<and> heap t a = heap s a"
  proof (intro allI impI)
    fix k t
    assume "k \<le> length objs" and "release_all X (take k objs) s = Inr t"
    with frame cp have "current_pool t = Some (p, pool, a, xs)"
      by simp
    from current_poolD [OF this] d show "heap t p = heap s p \<and> heap t a = heap s a"
      by simp
  qed
  have loop: "pop_loop X p 0 s = release_all X objs s"
    using pop_loop_release_all [OF d(2,3,4) n tk, of 0 objs X] kept by simp
  show "autorelease_pool_pop X s =
           (case release_all X objs s of
              Inl e \<Rightarrow> Inl e
            | Inr t \<Rightarrow> Inr (t\<lparr>heap := other_storage t, current_autorelease_pool := NULL\<rparr>))"
  proof (cases "release_all X objs s")
    case (Inl e)
    then show ?thesis
      using d(1) loop by (simp add: autorelease_pool_pop_def)
  next
    case (Inr t)
    with frame cp have cpt: "current_pool t = Some (p, pool, a, xs)"
      by (metis order_refl take_all)
    note dt = current_poolD [OF this]
    have "autorelease_pool_pop X s
        = Inr (t\<lparr>heap := (heap t)(a := None, p := None), current_autorelease_pool := NULL\<rparr>)"
      using d(1) loop Inr dt
      by (simp add: autorelease_pool_pop_def free_def)
    then show ?thesis
      using Inr by (simp add: other_storage_upd [OF cpt])
  qed
qed

lemma call_dealloc_grows:
  assumes grows: "\<forall>n q u u'. X n q u = Inr u' \<longrightarrow> (\<exists>cs. calls u' = calls u @ cs)"
    and "f \<noteq> FNULL" and run: "call_dealloc X f obj s = Inr t"
  shows "\<exists>cs. calls t = calls s @ (f, obj) # cs"
proof (cases f)
  case FNULL
  then show ?thesis
    using assms(2) by simp
next
  case TroveString_dealloc_ptr
  then show ?thesis
    using run by (auto simp: call_dealloc_def dest: calls_TroveString_dealloc)
next
  case (ExternFn n)
  then have "X n obj (s\<lparr>calls := calls s @ [(f, obj)]\<rparr>) = Inr t"
    using run by (simp add: call_dealloc_def)
  with grows obtain cs where "calls t = calls (s\<lparr>calls := calls s @ [(f, obj)]\<rparr>) @ cs"
    by blast
  then show ?thesis
    by simp
qed

lemma release_last_reference_grows:
  assumes grows: "\<forall>n q u u'. X n q u = Inr u' \<longrightarrow> (\<exists>cs. calls u' = calls u @ cs)"
    and last: "last_reference s obj" and ret: "arc_release X obj s = Inr t"
  shows "\<exists>cs. calls t = calls s @ (destructor_of s obj, obj) # cs"
proof -
  from last obtain a h where obj: "obj = Ptr a" and h: "header_at s a = Some h"
    and one: "ref_count h = 1" and f: "dealloc h \<noteq> FNULL"
    by (auto simp: last_reference_def header_of_def split: ptr.splits option.splits)
  have "call_dealloc X (dealloc h) obj (store_header a (h\<lparr>ref_count := 0\<rparr>) s) = Inr t"
    using ret arc_release_last [OF h one, of X] f obj by simp
  from call_dealloc_grows [OF grows f this] show ?thesis
    using obj h by (simp add: destructor_of_def header_of_def calls_store_header)
qed

lemma release_all_destroys_grows:
  assumes grows: "\<forall>n q u u'. X n q u = Inr u' \<longrightarrow> (\<exists>cs. calls u' = calls u @ cs)"
    and "\<forall>obj\<in>set objs. last_reference s obj"
    and "\<forall>k\<le>length objs. \<forall>t. release_all X (take k objs) s = Inr t
           \<longrightarrow> (\<forall>obj\<in>set (drop k objs). header_of t obj = header_of s obj)"
    and "release_all X objs s = Inr t"
  shows "\<exists>css. length css = length objs
           \<and> calls t = calls s
               @ concat (map2 (\<lambda>obj cs. (destructor_of s obj, obj) # cs) objs css)"
  using assms(2-)
proof (induction objs arbitrary: s)
  case Nil
  then show ?case
    by simp
next
  case (Cons obj objs)
  from Cons.prems(3) obtain s1 where one: "arc_release X obj s = Inr s1"
    and rest: "release_all X objs s1 = Inr t"
    by (auto split: sum.splits)
  have "last_reference s obj"
    using Cons.prems(1) by simp
  from release_last_reference_grows [OF grows this one]
  obtain cs where c1: "calls s1 = calls s @ (destructor_of s obj, obj) # cs"
    by blast
  have "release_all X (take 1 (obj # objs)) s = Inr s1"
    using one by simp
  with Cons.prems(2) have "\<forall>q\<in>set (drop 1 (obj # objs)). header_of s1 q = header_of s q"
    by (metis One_nat_def Suc_leI length_Cons zero_less_Suc)
  then have same: "\<forall>q\<in>set objs. header_of s1 q = header_of s q"
    by simp
  then have last1: "\<forall>q\<in>set objs. last_reference s1 q"
    using Cons.prems(1) by (simp add: last_reference_def)
  have frame1: "\<forall>k\<le>length objs. \<forall>t. release_all X (take k objs) s1 = Inr t
           \<longrightarrow> (\<forall>q\<in>set (drop k objs). header_of t q = header_of s1 q)"
  proof (intro allI impI ballI)
    fix k t q
    assume k: "k \<le> length objs" and run: "release_all X (take k objs) s1 = Inr t"
      and q: "q \<in> set (drop k objs)"
    have "Suc k \<le> length (obj # objs)" and "release_all X (take (Suc k) (obj # objs)) s = Inr t"
      and "q \<in> set (drop (Suc k) (obj # objs))"
      using k run q one by simp_all
    with Cons.prems(2) have "header_of t q = header_of s q"
      by blast
    moreover have "q \<in> set objs"
      using q by (rule in_set_dropD)
    ultimately show "header_of t q = header_of s1 q"
      using same by simp
  qed
  from Cons.IH [OF last1 frame1 rest] obtain css where len: "length css = length objs"
    and c2: "calls t = calls s1
               @ concat (map2 (\<lambda>q cs. (destructor_of s1 q, q) # cs) objs css)"
    by blast
  have "map2 (\<lambda>q cs. (destructor_of s1 q, q) # cs) objs css
      = map2 (\<lambda>q cs. (destructor_of s q, q) # cs) objs css"
    using same by (auto simp: destructor_of_def dest: set_zip_leftD)
  with c1 c2 have "calls t = calls s
      @ concat (map2 (\<lambda>q cs. (destructor_of s q, q) # cs) (obj # objs) (cs # css))"
    by simp
  moreover have "length (cs # css) = length (obj # objs)"
    using len by simp
  ultimately show ?case
    by blast
qed

lemma pop_refines_kept:
  assumes cp: "current_pool s = Some (p, pool, a, xs)"
    and reg: "registered s = Some objs"
    and kept: "\<forall>k\<le>length objs. \<forall>t. release_all X (take k objs) s = Inr t
                 \<longrightarrow> heap t p = heap s p \<and> heap t a = heap s a"
  shows "autorelease_pool_pop X s =
           (case release_all X objs s of
              Inl e \<Rightarrow> Inl e
            | Inr t \<Rightarrow> Inr (t\<lparr>heap := (heap t)(a := None, p := None),
                               current_autorelease_pool := NULL\<rparr>))"
proof -
  from reg cp have n: "unat (count pool) \<le> length xs"
    and tk: "take (unat (count pool)) xs = map Some objs"
    by (auto elim!: registeredD)
  note d = current_poolD [OF cp]
  have loop: "pop_loop X p 0 s = release_all X objs s"
    using pop_loop_release_all [OF d(2,3,4) n tk, of 0 objs X] kept by simp
  show ?thesis
  proof (cases "release_all X objs s")
    case (Inl e)
    then show ?thesis
      using d(1) loop by (simp add: autorelease_pool_pop_def)
  next
    case (Inr t)
    with kept have "heap t p = heap s p \<and> heap t a = heap s a"
      by (metis order_refl take_all)
    then have "heap t p = Some (PoolB pool)" and "heap t a = Some (ArrayB xs)"
      using d(2,4) by simp_all
    then show ?thesis
      using d(1,3,5) loop Inr by (simp add: autorelease_pool_pop_def free_def)
  qed
qed

lemma push_result:
  assumes "autorelease_pool_push s = Inr s'"
  shows "s' = s\<lparr>heap := (heap s)
                 (Suc (brk s) \<mapsto> ArrayB (replicate 16 None),
                  brk s \<mapsto> PoolB \<lparr>objects = Ptr (Suc (brk s)), count = 0, capacity = 16\<rparr>),
               brk := Suc (Suc (brk s)),
               current_autorelease_pool := Ptr (brk s)\<rparr>"
  using assms
  by (auto simp: autorelease_pool_push_def malloc_def array_slots_def Let_def split: if_splits)

lemma pop_empty_pool:
  assumes "current_autorelease_pool s = Ptr p" and "heap s p = Some (PoolB pool)"
    and "count pool = 0" and "objects pool = Ptr a" and "heap s a = Some (ArrayB xs)"
  shows "autorelease_pool_pop X s
     = Inr (s\<lparr>heap := (heap s)(a := None, p := None), current_autorelease_pool := NULL\<rparr>)"
proof -
  have "pop_loop X p 0 s = Inr s"
    using assms(2,3) by (simp add: pop_loop_end)
  moreover have "a \<noteq> p"
    using assms(2,5) by auto
  ultimately show ?thesis
    using assms by (simp add: autorelease_pool_pop_def free_def)
qed

lemma push_then_pop:
  assumes "autorelease_pool_push s = Inr s'"
  shows "autorelease_pool_pop X s'
     = Inr (s\<lparr>heap := (heap s)(brk s := None, Suc (brk s) := None),
              brk := Suc (Suc (brk s)), current_autorelease_pool := NULL\<rparr>)"
proof -
  let ?t = "s\<lparr>heap := (heap s)
                 (Suc (brk s) \<mapsto> ArrayB (replicate 16 None),
                  brk s \<mapsto> PoolB \<lparr>objects = Ptr (Suc (brk s)), count = 0, capacity = 16\<rparr>),
               brk := Suc (Suc (brk s)),
               current_autorelease_pool := Ptr (brk s)\<rparr>"
  have "autorelease_pool_pop X ?t
      = Inr (?t\<lparr>heap := (heap ?t)(Suc (brk s) := None, brk s := None),
                current_autorelease_pool := NULL\<rparr>)"
    by (rule pop_empty_pool [where pool = "\<lparr>objects = Ptr (Suc (brk s)), count = 0, capacity = 16\<rparr>"
          and xs = "replicate 16 None"])
       simp_all
  then have "autorelease_pool_pop X ?t
      = Inr (s\<lparr>heap := (heap s)(brk s := None, Suc (brk s) := None),
              brk := Suc (Suc (brk s)), current_autorelease_pool := NULL\<rparr>)"
    by (simp add: fun_upd_twist)
  then show ?thesis
    by (simp only: push_result [OF assms, symmetric])
qed

lemma scoped_dtors_run:
  assumes "alloc_ok s (brk s)" and "alloc_ok s (Suc (brk s))"
  shows "scoped_dtors n obj s
     = free obj (s\<lparr>heap := (heap s)(brk s := None, Suc (brk s) := None),
                   brk := Suc (Suc (brk s)), current_autorelease_pool := NULL\<rparr>)"
proof -
  from assms obtain s' where push: "autorelease_pool_push s = Inr s'"
    by (simp add: autorelease_pool_push_def malloc_def)
  from push_then_pop [OF this, of idle_dtors] push show ?thesis
    by (simp add: scoped_dtors_def)
qed

lemma scoped_quiet: "\<forall>n q u u'. scoped_dtors n q u = Inr u' \<longrightarrow> calls u' = calls u"
proof (intro allI impI)
  fix n q u u'
  assume run: "scoped_dtors n q u = Inr u'"
  then obtain s1 s2 where push: "autorelease_pool_push u = Inr s1"
    and pop: "autorelease_pool_pop idle_dtors s1 = Inr s2" and fr: "free q s2 = Inr u'"
    by (auto simp: scoped_dtors_def split: sum.splits)
  from push_then_pop [OF push, of idle_dtors] pop have "calls s2 = calls u"
    by auto
  with calls_free [OF fr] show "calls u' = calls u"
    by simp
qed

lemma quiet_grows:
  assumes "\<forall>n q u u'. X n q u = Inr u' \<longrightarrow> calls u' = calls u"
  shows "\<forall>n q u u'. X n q u = Inr u' \<longrightarrow> (\<exists>cs. calls u' = calls u @ cs)"
  using assms by (metis append_Nil2)

lemma up_to_two: "k \<le> (2 :: nat) \<Longrightarrow> k = 0 \<or> k = 1 \<or> k = 2"
  by arith

lemma take_two:
  "k \<le> (2 :: nat) \<Longrightarrow> take k [x, y] = (if k = 0 then [] else if k = 1 then [x] else [x, y])"
  by (auto dest!: up_to_two)

text \<open>
  C1. Let the current pool be the struct at \<open>p\<close> with its array at \<open>a\<close>, let \<open>objs\<close> be the
  objects registered in it, in the order of registration, and suppose that the
  destructors run during the pop leave these two blocks as they are: after each of the
  releases the struct and the array hold what they held before the pop. (The
  destructors may do anything else: one that pushes and pops a pool of its own, as a
  \<^verbatim>\<open>TROVE\<close> block does, changes \<^verbatim>\<open>current_autorelease_pool\<close>.) Then \<^verbatim>\<open>autorelease_pool_pop\<close>
  does what releasing the objects of \<open>objs\<close> one after the other, first to last, each
  once, does: when one of the releases does not return, the pop ends in the same way;
  otherwise it returns the state after the last release, with the pool's struct and
  array freed and \<^verbatim>\<open>current_autorelease_pool\<close> set to \<^verbatim>\<open>NULL\<close>.

  Destructors run in the order of registration: when the destructors of client code
  make no calls through \<^verbatim>\<open>dealloc\<close> fields themselves, the calls recorded during the pop
  are calls on registered objects, in the order of registration; and when moreover
  every registered object has \<^verbatim>\<open>ref_count\<close> 1 and a destructor, and no release changes the
  header of an object registered later, the destructor of every registered object is
  called, once each, first to last. When the destructors of client code do make such
  calls (they add to the record and remove nothing from it), the record of the pop
  consists, for each registered object in turn, of the call of its destructor followed
  by the calls made during that call.
\<close>

theorem pop_releases_in_registration_order:
  assumes cp: "current_pool s = Some (p, pool, a, xs)"
    and reg: "registered s = Some objs"
    and kept: "\<forall>k\<le>length objs. \<forall>t. release_all X (take k objs) s = Inr t
                 \<longrightarrow> heap t p = heap s p \<and> heap t a = heap s a"
  shows "autorelease_pool_pop X s =
           (case release_all X objs s of
              Inl e \<Rightarrow> Inl e
            | Inr t \<Rightarrow> Inr (t\<lparr>heap := (heap t)(a := None, p := None),
                               current_autorelease_pool := NULL\<rparr>))
       \<and> (\<forall>t. autorelease_pool_pop X s = Inr t
             \<longrightarrow> heap t a = None \<and> heap t p = None \<and> current_autorelease_pool t = NULL)
       \<and> ((\<forall>n q u u'. X n q u = Inr u' \<longrightarrow> calls u' = calls u) \<longrightarrow>
            (\<forall>t. autorelease_pool_pop X s = Inr t
               \<longrightarrow> (\<exists>cs. calls t = calls s @ cs \<and> subseq (map snd cs) objs))
          \<and> ((\<forall>obj\<in>set objs. last_reference s obj)
               \<and> (\<forall>k\<le>length objs. \<forall>t. release_all X (take k objs) s = Inr t
                    \<longrightarrow> (\<forall>obj\<in>set (drop k objs). header_of t obj = header_of s obj))
             \<longrightarrow> (\<forall>t. autorelease_pool_pop X s = Inr t
                    \<longrightarrow> calls t = calls s @ map (\<lambda>obj. (destructor_of s obj, obj)) objs)))
       \<and> ((\<forall>n q u u'. X n q u = Inr u' \<longrightarrow> (\<exists>cs. calls u' = calls u @ cs))
            \<and> (\<forall>obj\<in>set objs. last_reference s obj)
            \<and> (\<forall>k\<le>length objs. \<forall>t. release_all X (take k objs) s = Inr t
                 \<longrightarrow> (\<forall>obj\<in>set (drop k objs). header_of t obj = header_of s obj))
          \<longrightarrow> (\<forall>t. autorelease_pool_pop X s = Inr t
                 \<longrightarrow> (\<exists>css. length css = length objs
                        \<and> calls t = calls s
                            @ concat (map2 (\<lambda>obj cs. (destructor_of s obj, obj) # cs) objs css))))"
proof -
  note pop = pop_refines_kept [OF cp reg kept]
  have ran: "\<exists>t. release_all X objs s = Inr t \<and> calls t' = calls t
      \<and> heap t' a = None \<and> heap t' p = None
      \<and> current_autorelease_pool t' = NULL" if "autorelease_pool_pop X s = Inr t'" for t'
    using that pop by (auto split: sum.splits)
  have order: "\<exists>cs. calls t' = calls s @ cs \<and> subseq (map snd cs) objs"
    if "autorelease_pool_pop X s = Inr t'"
      and quiet: "\<forall>n q u u'. X n q u = Inr u' \<longrightarrow> calls u' = calls u" for t'
    using ran [OF that(1)] release_all_calls [OF quiet, of objs s] by auto
  have every: "calls t' = calls s @ map (\<lambda>obj. (destructor_of s obj, obj)) objs"
    if "autorelease_pool_pop X s = Inr t'"
      and quiet: "\<forall>n q u u'. X n q u = Inr u' \<longrightarrow> calls u' = calls u"
      and "\<forall>obj\<in>set objs. last_reference s obj"
      and "\<forall>k\<le>length objs. \<forall>t. release_all X (take k objs) s = Inr t
                 \<longrightarrow> (\<forall>obj\<in>set (drop k objs). header_of t obj = header_of s obj)"
    for t'
    using ran [OF that(1)] release_all_destroys [OF quiet that(3,4)] by auto
  have nested: "\<exists>css. length css = length objs
        \<and> calls t' = calls s
            @ concat (map2 (\<lambda>obj cs. (destructor_of s obj, obj) # cs) objs css)"
    if "autorelease_pool_pop X s = Inr t'"
      and grows: "\<forall>n q u u'. X n q u = Inr u' \<longrightarrow> (\<exists>cs. calls u' = calls u @ cs)"
      and "\<forall>obj\<in>set objs. last_reference s obj"
      and "\<forall>k\<le>length objs. \<forall>t. release_all X (take k objs) s = Inr t
                 \<longrightarrow> (\<forall>obj\<in>set (drop k objs). header_of t obj = header_of s obj)"
    for t'
    using ran [OF that(1)] release_all_destroys_grows [OF grows that(3,4)] by auto
  show ?thesis
  proof (intro conjI allI impI)
    show "autorelease_pool_pop X s =
           (case release_all X objs s of
              Inl e \<Rightarrow> Inl e
            | Inr t \<Rightarrow> Inr (t\<lparr>heap := (heap t)(a := None, p := None),
                               current_autorelease_pool := NULL\<rparr>))"
      by (fact pop)
  next
    fix t
    assume "autorelease_pool_pop X s = Inr t"
    from ran [OF this] show "heap t a = None"
      by blast
  next
    fix t
    assume "autorelease_pool_pop X s = Inr t"
    from ran [OF this] show "heap t p = None"
      by blast
  next
    fix t
    assume "autorelease_pool_pop X s = Inr t"
    from ran [OF this] show "current_autorelease_pool t = NULL"
      by blast
  next
    fix t
    assume "\<forall>n q u u'. X n q u = Inr u' \<longrightarrow> calls u' = calls u"
      and "autorelease_pool_pop X s = Inr t"
    then show "\<exists>cs. calls t = calls s @ cs \<and> subseq (map snd cs) objs"
      using order by blast
  next
    fix t
    assume "\<forall>n q u u'. X n q u = Inr u' \<longrightarrow> calls u' = calls u"
      and "(\<forall>obj\<in>set objs. last_reference s obj)
               \<and> (\<forall>k\<le>length objs. \<forall>t. release_all X (take k objs) s = Inr t
                    \<longrightarrow> (\<forall>obj\<in>set (drop k objs). header_of t obj = header_of s obj))"
      and "autorelease_pool_pop X s = Inr t"
    then show "calls t = calls s @ map (\<lambda>obj. (destructor_of s obj, obj)) objs"
      using every [of t] by blast
  next
    fix t
    assume "(\<forall>n q u u'. X n q u = Inr u' \<longrightarrow> (\<exists>cs. calls u' = calls u @ cs))
            \<and> (\<forall>obj\<in>set objs. last_reference s obj)
            \<and> (\<forall>k\<le>length objs. \<forall>t. release_all X (take k objs) s = Inr t
                 \<longrightarrow> (\<forall>obj\<in>set (drop k objs). header_of t obj = header_of s obj))"
      and "autorelease_pool_pop X s = Inr t"
    then show "\<exists>css. length css = length objs
        \<and> calls t = calls s
            @ concat (map2 (\<lambda>obj cs. (destructor_of s obj, obj) # cs) objs css)"
      using nested [of t] by blast
  qed
qed

theorem pop_releases_in_registration_order_witness:
  "three_strings program_start = Inr three_strings_state
   \<and> registered three_strings_state = Some [Ptr 2, Ptr 4, Ptr 6]
   \<and> last_reference three_strings_state (Ptr 2)
   \<and> last_reference three_strings_state (Ptr 4)
   \<and> last_reference three_strings_state (Ptr 6)
   \<and> autorelease_pool_pop idle_dtors three_strings_state
       = Inr (program_start\<lparr>brk := 8,
                calls := [(TroveString_dealloc_ptr, Ptr 2), (TroveString_dealloc_ptr, Ptr 4),
                          (TroveString_dealloc_ptr, Ptr 6)]\<rparr>)
   \<and> registered two_objects_state = Some [Ptr 2, Ptr 3]
   \<and> last_reference two_objects_state (Ptr 2)
   \<and> last_reference two_objects_state (Ptr 3)
   \<and> (\<exists>t. arc_release scoped_dtors (Ptr 2) two_objects_state = Inr t
          \<and> current_pool t \<noteq> current_pool two_objects_state)
   \<and> autorelease_pool_pop scoped_dtors two_objects_state
       = Inr (program_start\<lparr>brk := 8, calls := [(ExternFn 0, Ptr 2), (ExternFn 0, Ptr 3)]\<rparr>)"
proof -
  let ?s = "three_strings_state"
  let ?objs = "[Ptr 2, Ptr 4, Ptr 6]"
  let ?s1 = "?s\<lparr>heap := (heap ?s)(2 := None, 3 := None),
                calls := [(TroveString_dealloc_ptr, Ptr 2)]\<rparr>"
  let ?s2 = "?s\<lparr>heap := (heap ?s)(2 := None, 3 := None, 4 := None, 5 := None),
                calls := [(TroveString_dealloc_ptr, Ptr 2), (TroveString_dealloc_ptr, Ptr 4)]\<rparr>"
  let ?s3 = "?s\<lparr>heap := (heap ?s)(2 := None, 3 := None, 4 := None, 5 := None, 6 := None, 7 := None),
                calls := [(TroveString_dealloc_ptr, Ptr 2), (TroveString_dealloc_ptr, Ptr 4),
                          (TroveString_dealloc_ptr, Ptr 6)]\<rparr>"
  have cp: "current_pool ?s = Some (0, \<lparr>objects = Ptr 1, count = 3, capacity = 16\<rparr>, 1,
      [Some (Ptr 2), Some (Ptr 4), Some (Ptr 6)] @ replicate 13 None)"
    by (simp add: current_pool_def three_strings_state_def)
  have reg: "registered ?s = Some ?objs"
    by (simp add: registered_def cp)
  have r1: "arc_release idle_dtors (Ptr 2) ?s = Inr ?s1"
    by (simp add: arc_release_def header_at_def store_header_def call_dealloc_def
        TroveString_dealloc_def free_def three_strings_state_def fun_upd_twist)
  have r2: "arc_release idle_dtors (Ptr 4) ?s1 = Inr ?s2"
    by (simp add: arc_release_def header_at_def store_header_def call_dealloc_def
        TroveString_dealloc_def free_def three_strings_state_def fun_upd_twist)
  have r3: "arc_release idle_dtors (Ptr 6) ?s2 = Inr ?s3"
    by (simp add: arc_release_def header_at_def store_header_def call_dealloc_def
        TroveString_dealloc_def free_def three_strings_state_def fun_upd_twist)
  have kept: "\<forall>k\<le>length ?objs. \<forall>t. release_all idle_dtors (take k ?objs) ?s = Inr t
      \<longrightarrow> heap t 0 = heap ?s 0 \<and> heap t 1 = heap ?s 1"
    by (auto simp: take_three r1 r2 r3)
  have last: "\<forall>obj\<in>set ?objs. last_reference ?s obj"
    by (simp add: last_reference_def header_of_def header_at_def three_strings_state_def)
  have hs: "header_of ?s1 (Ptr 4) = header_of ?s (Ptr 4)" "header_of ?s1 (Ptr 6) = header_of ?s (Ptr 6)"
    "header_of ?s2 (Ptr 6) = header_of ?s (Ptr 6)"
    by (simp_all add: header_of_def header_at_def three_strings_state_def)
  have apart: "\<forall>k\<le>length ?objs. \<forall>t. release_all idle_dtors (take k ?objs) ?s = Inr t
      \<longrightarrow> (\<forall>obj\<in>set (drop k ?objs). header_of t obj = header_of ?s obj)"
    using hs by (auto simp: take_three r1 r2 r3)
  have run: "release_all idle_dtors ?objs ?s = Inr ?s3"
    by (simp add: r1 r2 r3)
  have fin: "?s3\<lparr>heap := (heap ?s3)(1 := None, 0 := None), current_autorelease_pool := NULL\<rparr>
      = program_start\<lparr>brk := 8,
                calls := [(TroveString_dealloc_ptr, Ptr 2), (TroveString_dealloc_ptr, Ptr 4),
                          (TroveString_dealloc_ptr, Ptr 6)]\<rparr>"
  proof -
    have "(heap ?s3)(1 := None, 0 := None) = (\<lambda>a. None)"
      by (rule ext) (simp add: three_strings_state_def)
    then show ?thesis
      by (simp add: program_start_def three_strings_state_def)
  qed
  note main = pop_releases_in_registration_order [OF cp reg kept]
  have strings: "autorelease_pool_pop idle_dtors ?s
      = Inr (?s3\<lparr>heap := (heap ?s3)(1 := None, 0 := None), current_autorelease_pool := NULL\<rparr>)"
    using main [THEN conjunct1] by (simp only: run sum.case)
  from main idle_quiet last apart
  have "\<forall>t. autorelease_pool_pop idle_dtors ?s = Inr t
      \<longrightarrow> calls t = calls ?s @ map (\<lambda>obj. (destructor_of ?s obj, obj)) ?objs"
    by blast
  from main quiet_grows [OF idle_quiet] last apart
  have "\<forall>t. autorelease_pool_pop idle_dtors ?s = Inr t
      \<longrightarrow> (\<exists>css. length css = length ?objs
             \<and> calls t = calls ?s
                 @ concat (map2 (\<lambda>obj cs. (destructor_of ?s obj, obj) # cs) ?objs css))"
    by blast
  let ?t = "two_objects_state"
  let ?qs = "[Ptr 2, Ptr 3]"
  let ?t1 = "?t\<lparr>heap := (heap ?t)(2 := None), brk := 6, current_autorelease_pool := NULL,
                calls := [(ExternFn 0, Ptr 2)]\<rparr>"
  let ?t2 = "?t\<lparr>heap := (heap ?t)(2 := None, 3 := None), brk := 8,
                current_autorelease_pool := NULL,
                calls := [(ExternFn 0, Ptr 2), (ExternFn 0, Ptr 3)]\<rparr>"
  have cp': "current_pool ?t = Some (0, \<lparr>objects = Ptr 1, count = 2, capacity = 16\<rparr>, 1,
      [Some (Ptr 2), Some (Ptr 3)] @ replicate 14 None)"
    by (simp add: current_pool_def two_objects_state_def)
  have reg': "registered ?t = Some ?qs"
    by (simp add: registered_def cp')
  have q1: "arc_release scoped_dtors (Ptr 2) ?t = Inr ?t1"
    by (simp add: arc_release_def header_at_def store_header_def call_dealloc_def
        scoped_dtors_run free_def two_objects_state_def)
  have q2: "arc_release scoped_dtors (Ptr 3) ?t1 = Inr ?t2"
    by (simp add: arc_release_def header_at_def store_header_def call_dealloc_def
        scoped_dtors_run free_def two_objects_state_def)
  have moved: "current_pool ?t1 \<noteq> current_pool ?t"
    by (simp add: current_pool_def two_objects_state_def)
  have kept': "\<forall>k\<le>length ?qs. \<forall>t. release_all scoped_dtors (take k ?qs) ?t = Inr t
      \<longrightarrow> heap t 0 = heap ?t 0 \<and> heap t 1 = heap ?t 1"
    by (auto simp: take_two q1 q2)
  have last': "\<forall>obj\<in>set ?qs. last_reference ?t obj"
    by (simp add: last_reference_def header_of_def header_at_def two_objects_state_def)
  have hs': "header_of ?t1 (Ptr 3) = header_of ?t (Ptr 3)"
    by (simp add: header_of_def header_at_def two_objects_state_def)
  have apart': "\<forall>k\<le>length ?qs. \<forall>t. release_all scoped_dtors (take k ?qs) ?t = Inr t
      \<longrightarrow> (\<forall>obj\<in>set (drop k ?qs). header_of t obj = header_of ?t obj)"
    using hs' by (auto simp: take_two q1 q2)
  have run': "release_all scoped_dtors ?qs ?t = Inr ?t2"
    by (simp add: q1 q2)
  have fin': "?t2\<lparr>heap := (heap ?t2)(1 := None, 0 := None), current_autorelease_pool := NULL\<rparr>
      = program_start\<lparr>brk := 8, calls := [(ExternFn 0, Ptr 2), (ExternFn 0, Ptr 3)]\<rparr>"
  proof -
    have "(heap ?t2)(1 := None, 0 := None) = (\<lambda>a. None)"
      by (rule ext) (simp add: two_objects_state_def)
    then show ?thesis
      by (simp add: program_start_def two_objects_state_def)
  qed
  note scoped = pop_releases_in_registration_order [OF cp' reg' kept']
  have objects: "autorelease_pool_pop scoped_dtors ?t
      = Inr (?t2\<lparr>heap := (heap ?t2)(1 := None, 0 := None), current_autorelease_pool := NULL\<rparr>)"
    using scoped [THEN conjunct1] by (simp only: run' sum.case)
  from scoped scoped_quiet last' apart'
  have "\<forall>t. autorelease_pool_pop scoped_dtors ?t = Inr t
      \<longrightarrow> calls t = calls ?t @ map (\<lambda>obj. (destructor_of ?t obj, obj)) ?qs"
    by blast
  from scoped quiet_grows [OF scoped_quiet] last' apart'
  have "\<forall>t. autorelease_pool_pop scoped_dtors ?t = Inr t
      \<longrightarrow> (\<exists>css. length css = length ?qs
             \<and> calls t = calls ?t
                 @ concat (map2 (\<lambda>obj cs. (destructor_of ?t obj, obj) # cs) ?qs css))"
    by blast
  show ?thesis
    using reg last fin strings three_strings_run reg' last' fin' objects q1 moved by simp
qed

subsection \<open>Nested pools and null entries\<close>

lemma pop_without_pool:
  "current_autorelease_pool s = NULL \<Longrightarrow> autorelease_pool_pop X s = Inr s"
  by (simp add: autorelease_pool_pop_def)

lemma repeat_call_fixed: "f s = Inr s \<Longrightarrow> repeat_call n f s = Inr s"
  by (induction n) simp_all

text \<open>
  C2. Push a pool, register any objects \<open>objs\<close> in it, push a second pool, and pop. At
  the second push the current pool was the first one, at the address \<open>brk s0\<close>, with
  \<open>objs\<close> registered in it. The pop returns and leaves \<^verbatim>\<open>current_autorelease_pool\<close> \<^verbatim>\<open>NULL\<close>,
  not pointing to the first pool: every further pop, however many, returns without
  changing the state. The first pool is still in the heap with \<open>objs\<close> registered in
  it (it would be the current pool again if the pointer were set back to it), all
  storage that existed before the second push is unchanged, and no destructor has been
  called: the objects registered in the first pool are not released.
\<close>

theorem nested_pop_loses_outer_pool:
  assumes "autorelease_pool_push s0 = Inr s1" and "autorelease_all objs s1 = Inr s2"
    and "autorelease_pool_push s2 = Inr s3"
  shows "current_autorelease_pool s2 = Ptr (brk s0) \<and> registered s2 = Some objs
       \<and> (\<exists>s4. autorelease_pool_pop X s3 = Inr s4
             \<and> current_autorelease_pool s4 = NULL
             \<and> (\<forall>n. repeat_call n (autorelease_pool_pop X) s4 = Inr s4)
             \<and> registered (s4\<lparr>current_autorelease_pool := Ptr (brk s0)\<rparr>) = Some objs
             \<and> (\<forall>b<brk s2. heap s4 b = heap s2 b)
             \<and> calls s4 = calls s2)"
proof -
  let ?s4 = "s2\<lparr>heap := (heap s2)(brk s2 := None, Suc (brk s2) := None),
                brk := Suc (Suc (brk s2)), current_autorelease_pool := NULL\<rparr>"
  from adds_keep_pool_state [OF push_pool_state(1) [OF assms(1)] _ assms(2)]
  obtain j where ps: "pool_state s2 (brk s0) objs j"
    by auto
  then obtain pool a xs where cp: "current_pool s2 = Some (brk s0, pool, a, xs)"
    and below: "brk s0 < brk s2" "a < brk s2"
    and n: "unat (count pool) = length objs" "length objs \<le> 16 * 2 ^ j" "length xs = 16 * 2 ^ j"
    and tk: "take (length objs) xs = map Some objs"
    by (rule pool_stateD)
  note d = current_poolD [OF cp]
  have reg: "registered s2 = Some objs"
    using ps by (rule pool_state_registered)
  have pop: "autorelease_pool_pop X s3 = Inr ?s4"
    using assms(3) by (rule push_then_pop)
  have again: "autorelease_pool_pop X ?s4 = Inr ?s4"
    by (simp add: pop_without_pool)
  have "current_pool (?s4\<lparr>current_autorelease_pool := Ptr (brk s0)\<rparr>) = Some (brk s0, pool, a, xs)"
    using d below by (intro current_poolI) simp_all
  then have outer: "registered (?s4\<lparr>current_autorelease_pool := Ptr (brk s0)\<rparr>) = Some objs"
    using n tk by (intro registeredI [where xs = xs and pool = pool]) simp_all
  have "\<forall>b<brk s2. heap ?s4 b = heap s2 b"
    by simp
  then show ?thesis
    using d(1) reg pop again outer repeat_call_fixed [of "autorelease_pool_pop X" ?s4, OF again]
    by (intro conjI exI [of _ ?s4]) simp_all
qed


lemma register_abc: "autorelease_all [Ptr 0] abc_pool_state = Inr abc_registered_state"
  by (simp add: autorelease_abc)

lemma push_nested: "autorelease_pool_push abc_registered_state = Inr nested_state"
  by (simp add: autorelease_pool_push_def malloc_def nested_state_def abc_registered_state_def
      abc_pool_state_def array_slots_def fun_upd_twist)

theorem nested_pop_loses_outer_pool_witness:
  "autorelease_pool_push abc_state = Inr abc_pool_state
   \<and> autorelease_all [Ptr 0] abc_pool_state = Inr abc_registered_state
   \<and> autorelease_pool_push abc_registered_state = Inr nested_state
   \<and> current_autorelease_pool abc_registered_state = Ptr 2
   \<and> registered abc_registered_state = Some [Ptr 0]
   \<and> autorelease_pool_pop idle_dtors nested_state
       = Inr (abc_registered_state\<lparr>brk := 6, current_autorelease_pool := NULL\<rparr>)
   \<and> autorelease_pool_pop idle_dtors
         (abc_registered_state\<lparr>brk := 6, current_autorelease_pool := NULL\<rparr>)
       = Inr (abc_registered_state\<lparr>brk := 6, current_autorelease_pool := NULL\<rparr>)
   \<and> header_at (abc_registered_state\<lparr>brk := 6, current_autorelease_pool := NULL\<rparr>) 0
       = Some \<lparr>ref_count = 1, dealloc = TroveString_dealloc_ptr\<rparr>
   \<and> calls (abc_registered_state\<lparr>brk := 6, current_autorelease_pool := NULL\<rparr>) = []"
proof -
  let ?s4 = "abc_registered_state\<lparr>brk := 6, current_autorelease_pool := NULL\<rparr>"
  have start: "brk abc_state = 2"
    by (simp add: abc_state_def)
  have "(heap abc_registered_state)(4 := None, 5 := None) = heap abc_registered_state"
    by (rule ext) (simp add: abc_registered_state_def abc_pool_state_def)
  moreover have "brk abc_registered_state = 4"
    by (simp add: abc_registered_state_def abc_pool_state_def)
  ultimately have pop: "autorelease_pool_pop idle_dtors nested_state = Inr ?s4"
    using push_then_pop [OF push_nested, of idle_dtors] by simp
  from nested_pop_loses_outer_pool [OF push_abc register_abc push_nested, of idle_dtors]
  have "current_autorelease_pool abc_registered_state = Ptr 2
      \<and> registered abc_registered_state = Some [Ptr 0]
      \<and> repeat_call 1 (autorelease_pool_pop idle_dtors) ?s4 = Inr ?s4
      \<and> calls ?s4 = calls abc_registered_state"
    unfolding start pop by auto
  moreover have "header_at ?s4 0 = Some \<lparr>ref_count = 1, dealloc = TroveString_dealloc_ptr\<rparr>"
    and "calls abc_registered_state = []"
    by (simp_all add: header_at_def abc_registered_state_def abc_pool_state_def)
  ultimately show ?thesis
    using push_abc register_abc push_nested pop by (simp split: sum.splits)
qed

lemma release_NULL: "arc_release X NULL s = Inr s"
  by (simp add: arc_release_def)

lemma release_all_snoc_NULL: "release_all X (objs @ [NULL]) s = release_all X objs s"
  by (induction objs arbitrary: s) (simp_all add: release_NULL split: sum.splits)

lemma autorelease_add_registered:
  assumes wf: "heap_wf s" and reg: "registered s = Some objs"
    and add: "autorelease_add obj s = Inr s'"
  shows "registered s' = Some (objs @ [obj])"
proof -
  from reg obtain p pool a xs where cp: "current_pool s = Some (p, pool, a, xs)"
    and n: "unat (count pool) \<le> length xs" and tk: "take (unat (count pool)) xs = map Some objs"
    by (rule registeredD)
  note d = current_poolD [OF cp]
  have below: "p < brk s" "a < brk s"
    using wf d by (auto intro: heap_wf_below)
  from add_step [OF cp n tk below add]
  obtain pool' a' xs' where "current_pool s' = Some (p, pool', a', xs')"
    and "unat (count pool') \<le> length xs'"
    and "take (unat (count pool')) xs' = map Some (objs @ [obj])"
    by blast
  then show ?thesis
    by (rule registeredI)
qed

text \<open>
  C10. \<^verbatim>\<open>arc_release(NULL)\<close> returns at once and changes nothing. With a current pool
  holding \<open>objs\<close>, \<^verbatim>\<open>arc_autorelease(NULL)\<close>, when it returns, returns \<^verbatim>\<open>NULL\<close> and leaves
  \<open>objs\<close> followed by \<^verbatim>\<open>NULL\<close> registered. The pop that follows does what a pop of \<open>objs\<close>
  alone does (release them in order, free the pool, set the pointer to \<^verbatim>\<open>NULL\<close>): the
  \<^verbatim>\<open>NULL\<close> entry adds no release, no destructor call and no failure. As for C1, the
  destructors of the other objects are supposed to leave the pool alone; the state is
  one that the allocator can be in.
\<close>

theorem null_through_pool:
  assumes wf: "heap_wf s" and reg: "registered s = Some objs"
    and add: "arc_autorelease NULL s = Inr (r, s1)"
    and frame: "\<forall>k\<le>length objs. \<forall>t. release_all X (take k objs) s1 = Inr t
                 \<longrightarrow> current_pool t = current_pool s1"
  shows "r = NULL \<and> registered s1 = Some (objs @ [NULL])
       \<and> (\<forall>t. arc_release X NULL t = Inr t)
       \<and> autorelease_pool_pop X s1 =
           (case release_all X objs s1 of
              Inl e \<Rightarrow> Inl e
            | Inr t \<Rightarrow> Inr (t\<lparr>heap := other_storage t, current_autorelease_pool := NULL\<rparr>))"
proof -
  from add have r: "r = NULL" and add': "autorelease_add NULL s = Inr s1"
    by (simp_all add: arc_autorelease_Inr)
  have reg1: "registered s1 = Some (objs @ [NULL])"
    using wf reg add' by (rule autorelease_add_registered)
  have frame1: "\<forall>k\<le>length (objs @ [NULL]). \<forall>t.
      release_all X (take k (objs @ [NULL])) s1 = Inr t \<longrightarrow> current_pool t = current_pool s1"
  proof (intro allI impI)
    fix k t
    assume k: "k \<le> length (objs @ [NULL])"
      and run: "release_all X (take k (objs @ [NULL])) s1 = Inr t"
    show "current_pool t = current_pool s1"
    proof (cases "k \<le> length objs")
      case True
      then show ?thesis
        using run frame by simp
    next
      case False
      then have "take k (objs @ [NULL]) = objs @ [NULL]"
        using k by simp
      then have "release_all X (take (length objs) objs) s1 = Inr t"
        using run by (simp add: release_all_snoc_NULL)
      then show ?thesis
        using frame by blast
    qed
  qed
  from pop_refines [OF reg1 frame1] show ?thesis
    using r reg1 by (simp add: release_all_snoc_NULL release_NULL)
qed

lemma register_NULL: "arc_autorelease NULL abc_pool_state = Inr (NULL, null_registered_state)"
  using add_without_growth [OF abc_pool, of NULL]
  by (simp add: arc_autorelease_def null_registered_state_def)

theorem null_through_pool_witness:
  "heap_wf abc_pool_state \<and> registered abc_pool_state = Some []
   \<and> arc_autorelease NULL abc_pool_state = Inr (NULL, null_registered_state)
   \<and> registered null_registered_state = Some [NULL]
   \<and> autorelease_pool_pop idle_dtors null_registered_state = Inr (abc_state\<lparr>brk := 4\<rparr>)"
proof -
  have wf: "heap_wf abc_pool_state"
    by (simp add: heap_wf_def abc_pool_state_def)
  have reg: "registered abc_pool_state = Some []"
    by (simp add: registered_def abc_pool)
  have frame: "\<forall>k\<le>length ([] :: ptr list). \<forall>t.
      release_all idle_dtors (take k []) null_registered_state = Inr t
        \<longrightarrow> current_pool t = current_pool null_registered_state"
    by simp
  have cp: "current_pool null_registered_state
      = Some (2, \<lparr>objects = Ptr 3, count = 1, capacity = 16\<rparr>, 3,
              (replicate 16 None)[0 := Some NULL])"
    by (simp add: current_pool_def null_registered_state_def abc_pool_state_def)
  have "(heap null_registered_state)(3 := None, 2 := None) = heap abc_state"
    by (rule ext) (simp add: null_registered_state_def abc_pool_state_def abc_state_def)
  then have fin: "null_registered_state\<lparr>heap := other_storage null_registered_state,
        current_autorelease_pool := NULL\<rparr> = abc_state\<lparr>brk := 4\<rparr>"
    by (simp add: other_storage_upd [OF cp])
      (simp add: null_registered_state_def abc_pool_state_def abc_state_def)
  from null_through_pool [OF wf reg register_NULL frame] show ?thesis
    using wf reg register_NULL fin by simp
qed

end
